theory Spec2Isabelle
  imports Main
begin

section \<open>JavaScript values\<close>

text \<open>
  The source is TypeScript; at run time its data are JavaScript values. A plain object is
  the list of its own properties in insertion order, an array the list of its elements.
  \<open>JErr a\<close> is the Error instance that \<^verbatim>\<open>new Error(a)\<close> creates, and \<open>JFun n env\<close> the
  closure of the function named \<open>n\<close> in the source over the captured value \<open>env\<close>.
  Numbers are represented by integers: the program never computes with a number, it only
  tests one for truthiness. Properties inherited from the standard prototypes are outside
  the model; the program only asks for the names \<^verbatim>\<open>ok\<close>, \<^verbatim>\<open>value\<close>, \<^verbatim>\<open>error\<close> and
  \<^verbatim>\<open>cata\<close>, which no standard prototype defines.
\<close>

datatype js_value =
    JUndefined
  | JNull
  | JBool bool
  | JNum int
  | JStr string
  | JErr js_value
  | JArr "js_value list"
  | JObj "(string \<times> js_value) list"
  | JFun string js_value

type_synonym js_object = "(string \<times> js_value) list"

datatype js_exn = TypeError | SyntaxError

text \<open>The \<^verbatim>\<open>typeof\<close> operator.\<close>

fun typeof :: "js_value \<Rightarrow> string" where
  "typeof JUndefined = ''undefined''"
| "typeof JNull = ''object''"
| "typeof (JBool b) = ''boolean''"
| "typeof (JNum n) = ''number''"
| "typeof (JStr s) = ''string''"
| "typeof (JErr a) = ''object''"
| "typeof (JArr xs) = ''object''"
| "typeof (JObj ps) = ''object''"
| "typeof (JFun n env) = ''function''"

text \<open>The truthiness test of \<^verbatim>\<open>if (x)\<close> and \<^verbatim>\<open>!x\<close>.\<close>

fun truthy :: "js_value \<Rightarrow> bool" where
  "truthy JUndefined = False"
| "truthy JNull = False"
| "truthy (JBool b) = b"
| "truthy (JNum n) = (n \<noteq> 0)"
| "truthy (JStr s) = (s \<noteq> [])"
| "truthy (JErr a) = True"
| "truthy (JArr xs) = True"
| "truthy (JObj ps) = True"
| "truthy (JFun n env) = True"

text \<open>Reading the property \<open>k\<close> of a plain object, and the test \<^verbatim>\<open>k in obj\<close> on one.\<close>

definition get_prop :: "js_object \<Rightarrow> string \<Rightarrow> js_value" where
  "get_prop ps k = (case map_of ps k of Some v \<Rightarrow> v | None \<Rightarrow> JUndefined)"

definition has_prop :: "string \<Rightarrow> js_object \<Rightarrow> bool" where
  "has_prop k ps = (k \<in> set (map fst ps))"

text \<open>
  Writing the property \<open>k\<close>: an existing property keeps its place, a new one goes last.
\<close>

fun set_prop :: "js_object \<Rightarrow> string \<Rightarrow> js_value \<Rightarrow> js_object" where
  "set_prop [] k v = [(k, v)]"
| "set_prop ((k', v') # ps) k v = (if k' = k then (k, v) # ps else (k', v') # set_prop ps k v)"

text \<open>The decimal name of an array index.\<close>

fun index_name :: "nat \<Rightarrow> string" where
  "index_name n =
     (if n < 10 then [char_of (48 + n)]
      else index_name (n div 10) @ [char_of (48 + n mod 10)])"

text \<open>The names of the own properties of a value that is not a primitive.\<close>

fun own_names :: "js_value \<Rightarrow> string list" where
  "own_names (JObj ps) = map fst ps"
| "own_names (JArr xs) = map index_name [0..<length xs] @ [''length'']"
| "own_names (JErr a) = (if a = JUndefined then [''stack''] else [''stack'', ''message''])"
| "own_names (JFun n env) = [''length'', ''name'', ''prototype'']"
| "own_names v = []"

text \<open>
  \<^verbatim>\<open>k in v\<close> on any value: a TypeError when the right operand is a primitive
  (\<^verbatim>\<open>null\<close> and \<^verbatim>\<open>undefined\<close> included).
\<close>

definition js_in :: "string \<Rightarrow> js_value \<Rightarrow> js_exn + bool" where
  "js_in k v =
     (if typeof v = ''function'' \<or> (typeof v = ''object'' \<and> v \<noteq> JNull)
      then Inr (k \<in> set (own_names v))
      else Inl TypeError)"

text \<open>
  \<^verbatim>\<open>v.k\<close> on any value: a TypeError on \<^verbatim>\<open>null\<close> and \<^verbatim>\<open>undefined\<close>, the own
  property of a plain object, and \<^verbatim>\<open>undefined\<close> otherwise (right for the names the
  program reads, which no primitive wrapper, array, Error instance or function has).
\<close>

fun js_get :: "js_value \<Rightarrow> string \<Rightarrow> js_exn + js_value" where
  "js_get JUndefined k = Inl TypeError"
| "js_get JNull k = Inl TypeError"
| "js_get (JObj ps) k = Inr (get_prop ps k)"
| "js_get v k = Inr JUndefined"

text \<open>
  Expressions that may throw are values of \<open>js_exn + 'a\<close>. The operators \<^verbatim>\<open>&&\<close> and
  \<^verbatim>\<open>||\<close> evaluate their right operand only when the left one does not decide, so an
  exception of the right operand is raised only then. Both associate to the left.
\<close>

definition js_and :: "js_exn + bool \<Rightarrow> js_exn + bool \<Rightarrow> js_exn + bool" where
  "js_and a b = (case a of Inl e \<Rightarrow> Inl e | Inr x \<Rightarrow> if x then b else Inr False)"

definition js_or :: "js_exn + bool \<Rightarrow> js_exn + bool \<Rightarrow> js_exn + bool" where
  "js_or a b = (case a of Inl e \<Rightarrow> Inl e | Inr x \<Rightarrow> if x then Inr True else b)"

text \<open>\<^verbatim>\<open>v.k === c\<close> for a boolean constant \<open>c\<close>.\<close>

definition get_is :: "js_value \<Rightarrow> string \<Rightarrow> bool \<Rightarrow> js_exn + bool" where
  "get_is v k c = (case js_get v k of Inl e \<Rightarrow> Inl e | Inr x \<Rightarrow> Inr (x = JBool c))"

section \<open>The Result helpers (src/utils/basic.ts)\<close>

text \<open>
  \<^verbatim>\<open>Ok\<close> and \<^verbatim>\<open>Err\<close> are imported from the effect library:
  \<^verbatim>\<open>Ok(value) = { ok: true, value }\<close> and \<^verbatim>\<open>Err(error) = { ok: false, error }\<close>.
\<close>

definition Ok :: "js_value \<Rightarrow> js_object" where
  "Ok v = [(''ok'', JBool True), (''value'', v)]"

definition Err :: "js_value \<Rightarrow> js_object" where
  "Err e = [(''ok'', JBool False), (''error'', e)]"

text \<open>
  The declared type \<^verbatim>\<open>Result<T> = { readonly ok: true; value: T } | { ok: false; error: Error }\<close>:
  an object whose \<^verbatim>\<open>ok\<close> is \<^verbatim>\<open>true\<close> and that has a property \<^verbatim>\<open>value\<close>, or whose
  \<^verbatim>\<open>ok\<close> is \<^verbatim>\<open>false\<close> and whose \<^verbatim>\<open>error\<close> is an Error instance. An object type is
  open: further properties are allowed, so that every
  \<^verbatim>\<open>FxResult<T> = Result<T> & { cata }\<close> is a \<^verbatim>\<open>Result<T>\<close>.
\<close>

fun is_Error :: "js_value \<Rightarrow> bool" where
  "is_Error (JErr a) = True"
| "is_Error v = False"

definition is_Result :: "js_object \<Rightarrow> bool" where
  "is_Result r =
     (distinct (map fst r) \<and>
      (if get_prop r ''ok'' = JBool True then has_prop ''value'' r
       else get_prop r ''ok'' = JBool False \<and> is_Error (get_prop r ''error'')))"

text \<open>
  \<^verbatim>\<open>JSON.parse\<close> is a builtin of the host, so \<^verbatim>\<open>isJSONString\<close> takes it as a parameter:
  a function from a text to the parsed value or to the exception it throws. The
  \<^verbatim>\<open>catch\<close> clause turns every exception into \<^verbatim>\<open>false\<close>.
\<close>

definition isJSONString :: "(string \<Rightarrow> js_exn + js_value) \<Rightarrow> string \<Rightarrow> bool" where
  "isJSONString JSON_parse str =
     (case JSON_parse str of
        Inr obj \<Rightarrow> typeof obj = ''object'' \<and> obj \<noteq> JNull
      | Inl error \<Rightarrow> False)"

text \<open>The values that are objects: plain objects, arrays and Error instances.\<close>

fun object_value :: "js_value \<Rightarrow> bool" where
  "object_value (JObj ps) = True"
| "object_value (JArr xs) = True"
| "object_value (JErr a) = True"
| "object_value v = False"

text \<open>
  What \<^verbatim>\<open>JSON.parse\<close> does at a few texts: \<^verbatim>\<open>42\<close>, \<^verbatim>\<open>true\<close>, \<^verbatim>\<open>null\<close>, the string
  \<^verbatim>\<open>"hi"\<close> (quotes included), \<^verbatim>\<open>{}\<close>, \<^verbatim>\<open>[1]\<close>, and the ill-formed \<^verbatim>\<open>{\<close>, at which
  it throws a SyntaxError. Every other text is left ill-formed here.
\<close>

definition sample_parse :: "string \<Rightarrow> js_exn + js_value" where
  "sample_parse str =
     (if str = ''42'' then Inr (JNum 42)
      else if str = ''true'' then Inr (JBool True)
      else if str = ''null'' then Inr JNull
      else if str = CHR 0x22 # ''hi'' @ [CHR 0x22] then Inr (JStr ''hi'')
      else if str = ''{}'' then Inr (JObj [])
      else if str = ''[1]'' then Inr (JArr [JNum 1])
      else Inl SyntaxError)"

definition isOk :: "js_object \<Rightarrow> bool" where
  "isOk result = (get_prop result ''ok'' = JBool True)"

definition isErr :: "js_object \<Rightarrow> bool" where
  "isErr result = (get_prop result ''ok'' = JBool False)"

definition isResultDelphi :: "js_value \<Rightarrow> js_exn + bool" where
  "isResultDelphi arg =
     js_or
       (js_and
         (js_and
           (js_and
             (js_and (Inr (typeof arg = ''object'')) (Inr (arg \<noteq> JNull)))
             (js_in ''ok'' arg))
           (get_is arg ''ok'' True))
         (js_in ''value'' arg))
       (js_and (get_is arg ''ok'' False) (js_in ''error'' arg))"

definition isResultLikeOk :: "js_value \<Rightarrow> js_exn + bool" where
  "isResultLikeOk arg = js_and (isResultDelphi arg) (get_is arg ''ok'' True)"

definition isResultLikeErr :: "js_value \<Rightarrow> js_exn + bool" where
  "isResultLikeErr arg =
     js_and (js_and (isResultDelphi arg) (get_is arg ''ok'' False)) (js_in ''error'' arg)"

text \<open>
  \<^verbatim>\<open>toFxResult\<close> returns \<^verbatim>\<open>{ ...result, cata: cataFunction }\<close>, where
  \<^verbatim>\<open>cataFunction\<close> is a closure over \<^verbatim>\<open>result\<close>; \<^verbatim>\<open>toResult\<close> returns the rest of
  \<^verbatim>\<open>const { cata, ...original } = result\<close>.
\<close>

text \<open>
  \<^verbatim>\<open>cataFunction(patterns)\<close> runs \<^verbatim>\<open>patterns.Ok(result)\<close> when \<^verbatim>\<open>isOk(result)\<close> and
  \<^verbatim>\<open>patterns.Err(result)\<close> otherwise.
\<close>

definition cataFunction :: "js_object \<Rightarrow> (js_object \<Rightarrow> 'u) \<Rightarrow> (js_object \<Rightarrow> 'u) \<Rightarrow> 'u" where
  "cataFunction result patterns_Ok patterns_Err =
     (if isOk result then patterns_Ok result else patterns_Err result)"

definition toFxResult :: "js_object \<Rightarrow> js_object" where
  "toFxResult result = set_prop result ''cata'' (JFun ''cataFunction'' (JObj result))"

definition toResult :: "js_object \<Rightarrow> js_object" where
  "toResult result = filter (\<lambda>(k, v). k \<noteq> ''cata'') result"

definition ResultLikeToResult :: "js_object \<Rightarrow> js_object" where
  "ResultLikeToResult result =
     (if truthy (get_prop result ''ok'') then Ok (get_prop result ''value'')
      else if has_prop ''error'' result then Err (JErr (get_prop result ''error''))
      else Err (JErr (JStr ''unknown error'')))"

section \<open>The broadcast future (unnamed/part_000)\<close>

text \<open>
  \<^verbatim>\<open>withResolvers\<close> returns three closures over two variables, the set \<^verbatim>\<open>subscribers\<close>
  and \<^verbatim>\<open>settlement\<close>, and over the rebindable \<^verbatim>\<open>settle\<close>. The model passes that state
  explicitly. A resolver, the object \<^verbatim>\<open>{ resolve, reject }\<close> that one invocation of the
  operation creates, is known by its identity (the set compares members by identity): the
  number of the invocation. Beside the closure's variables the state holds what the effect
  library knows of every invocation (\<open>waiters\<close>) and the list of the effects so far
  (\<open>trace\<close>): every successful insertion into and removal from the set, and every call of a
  continuation \<^verbatim>\<open>resolver.resolve(v)\<close> or \<^verbatim>\<open>resolver.reject(e)\<close>.

  The scheduling is single-threaded and cooperative. The functions of this section are
  the state changes of one invocation of the operation, of one call of \<^verbatim>\<open>resolve\<close> or
  \<^verbatim>\<open>reject\<close> and of the cancellation of a suspended invocation; \<open>step\<close> and \<open>run\<close> put
  them one after the other, which is how they run when no caller does anything inside a
  continuation call. What a resumed caller does inside the call is added in the section
  on callers that run on inside a continuation call.
\<close>

type_synonym resolver = nat

datatype outcome = Resolved js_value | Rejected js_value

datatype effect = Added resolver | Deleted resolver | Called resolver outcome

datatype waiter = Unregistered | Pending | Resumed outcome | Cancelled

record world =
  subscribers :: "resolver list"
  settlement :: "js_object option"
  settle_live :: bool
  next_resolver :: nat
  waiters :: "resolver \<Rightarrow> waiter"
  trace :: "effect list"

text \<open>
  \<^verbatim>\<open>subscribers.add(r)\<close> and \<^verbatim>\<open>subscribers.delete(r)\<close>: a JavaScript Set keeps its
  members in insertion order, holds each once, and neither operation throws.
\<close>

definition Set_add :: "resolver \<Rightarrow> world \<Rightarrow> world" where
  "Set_add r s =
     (if r \<in> set (subscribers s) then s
      else s\<lparr>subscribers := subscribers s @ [r], trace := trace s @ [Added r]\<rparr>)"

definition Set_delete :: "resolver \<Rightarrow> world \<Rightarrow> world" where
  "Set_delete r s =
     (if r \<in> set (subscribers s)
      then s\<lparr>subscribers := removeAll r (subscribers s), trace := trace s @ [Deleted r]\<rparr>
      else s)"

text \<open>
  The effect library's side of a continuation call. The call is recorded whatever the
  state of the invocation. An invocation suspended at \<^verbatim>\<open>yield* suspend()\<close> completes with
  the outcome, and leaving the \<^verbatim>\<open>try\<close> block runs its \<^verbatim>\<open>finally\<close>:
  \<^verbatim>\<open>subscribers.delete(resolver)\<close>. An invocation that has not suspended (the call comes
  from its own body) completes with the outcome. A call on an invocation that has
  completed or was cancelled changes nothing. The continuations are the effect library's
  and do not throw. These are the state changes of the call itself; what the resumed
  caller goes on to do, still inside the call, is added by \<open>exec\<close> below.
\<close>

definition complete :: "resolver \<Rightarrow> outcome \<Rightarrow> world \<Rightarrow> world" where
  "complete r out s =
     (let s1 = s\<lparr>trace := trace s @ [Called r out]\<rparr> in
      case waiters s r of
        Pending \<Rightarrow> Set_delete r (s1\<lparr>waiters := (waiters s1)(r := Resumed out)\<rparr>)
      | Unregistered \<Rightarrow> s1\<lparr>waiters := (waiters s1)(r := Resumed out)\<rparr>
      | Resumed out' \<Rightarrow> s1
      | Cancelled \<Rightarrow> s1)"

definition resolver_resolve :: "resolver \<Rightarrow> js_value \<Rightarrow> world \<Rightarrow> world" where
  "resolver_resolve r v s = complete r (Resolved v) s"

definition resolver_reject :: "resolver \<Rightarrow> js_value \<Rightarrow> world \<Rightarrow> world" where
  "resolver_reject r e s = complete r (Rejected e) s"

definition notify :: "js_object \<Rightarrow> resolver \<Rightarrow> world \<Rightarrow> world" where
  "notify result resolver s =
     (if truthy (get_prop result ''ok'') then resolver_resolve resolver (get_prop result ''value'') s
      else if has_prop ''error'' result then resolver_reject resolver (get_prop result ''error'') s
      else resolver_reject resolver (JErr (JStr ''unknown error'')) s)"

text \<open>
  One invocation of \<^verbatim>\<open>operation\<close>, up to its suspension point or its end: a new resolver,
  then either the notification from the settlement (an object, so truthy) or the
  registration and the suspension inside \<^verbatim>\<open>try\<close>.
\<close>

definition operation :: "world \<Rightarrow> world" where
  "operation s =
     (let resolver = next_resolver s;
          s1 = s\<lparr>next_resolver := Suc resolver\<rparr>
      in case settlement s1 of
           Some result \<Rightarrow> notify result resolver s1
         | None \<Rightarrow> (Set_add resolver s1)\<lparr>waiters := (waiters s1)(resolver := Pending)\<rparr>)"

text \<open>
  Cancellation: the effect library halts an invocation that is suspended, which runs the
  \<^verbatim>\<open>finally\<close> block. There is nothing to halt in an invocation that is not suspended.
\<close>

definition cancel :: "resolver \<Rightarrow> world \<Rightarrow> world" where
  "cancel r s =
     (if waiters s r = Pending
      then Set_delete r (s\<lparr>waiters := (waiters s)(r := Cancelled)\<rparr>)
      else s)"

text \<open>
  The loop \<^verbatim>\<open>for (const subscriber of subscribers)\<close> of \<^verbatim>\<open>settle\<close>. The iteration of a
  Set is live: every member visited so far has been deleted, so the next member visited
  is the first one of what is left. \<^verbatim>\<open>notify(settlement, subscriber)\<close> reads
  \<^verbatim>\<open>settlement.ok\<close>, a TypeError were \<^verbatim>\<open>settlement\<close> still \<^verbatim>\<open>undefined\<close>.
\<close>

function settle_loop :: "world \<Rightarrow> js_exn + world" where
  "settle_loop s =
     (case subscribers s of
        [] \<Rightarrow> Inr s
      | subscriber # rest \<Rightarrow>
          (case settlement s of
             None \<Rightarrow> Inl TypeError
           | Some result \<Rightarrow> settle_loop (notify result subscriber (Set_delete subscriber s))))"
  by pat_completeness auto
termination
proof (relation "measure (\<lambda>s. length (subscribers s))")
  show "wf (measure (\<lambda>s. length (subscribers s)))" by simp
next
  fix s :: world and subscriber rest result
  assume sub: "subscribers s = subscriber # rest"
  have del: "length (subscribers (Set_delete subscriber s)) < length (subscribers s)"
    using sub by (simp add: Set_delete_def less_Suc_eq_le)
  have compl: "length (subscribers (complete r out t)) \<le> length (subscribers t)" for r out t
    by (cases "waiters t r") (simp_all add: complete_def Set_delete_def Let_def)
  have "length (subscribers (notify result subscriber (Set_delete subscriber s)))
          \<le> length (subscribers (Set_delete subscriber s))"
    by (simp add: notify_def resolver_resolve_def resolver_reject_def compl)
  with del show "(notify result subscriber (Set_delete subscriber s), s)
                   \<in> measure (\<lambda>s. length (subscribers s))"
    by simp
qed

declare settle_loop.simps [simp del]

text \<open>
  \<^verbatim>\<open>settle\<close> is a \<^verbatim>\<open>let\<close> binding: \<open>settle_live\<close> says that it still holds the function
  of the source, which rebinds it to \<^verbatim>\<open>() => {}\<close> when it records the settlement.
\<close>

definition settle :: "js_object \<Rightarrow> world \<Rightarrow> js_exn + world" where
  "settle result s =
     (if settle_live s
      then settle_loop
             (if settlement s = None
              then s\<lparr>settlement := Some result, settle_live := False\<rparr>
              else s)
      else Inr s)"

definition resolve :: "js_value \<Rightarrow> world \<Rightarrow> js_exn + world" where
  "resolve v s = settle (Ok v) s"

definition reject :: "js_value \<Rightarrow> world \<Rightarrow> js_exn + world" where
  "reject e s = settle (Err e) s"

definition withResolvers :: world where
  "withResolvers =
     \<lparr>subscribers = [], settlement = None, settle_live = True, next_resolver = 0,
      waiters = (\<lambda>r. Unregistered), trace = []\<rparr>"

text \<open>
  What a program does with a broadcaster, one action at a time; a run stops at the first
  exception.
\<close>

datatype event = Invoke | Cancel resolver | Resolve js_value | Reject js_value

fun step :: "world \<Rightarrow> event \<Rightarrow> js_exn + world" where
  "step s Invoke = Inr (operation s)"
| "step s (Cancel r) = Inr (cancel r s)"
| "step s (Resolve v) = resolve v s"
| "step s (Reject e) = reject e s"

fun run :: "world \<Rightarrow> event list \<Rightarrow> js_exn + world" where
  "run s [] = Inr s"
| "run s (e # es) = (case step s e of Inl x \<Rightarrow> Inl x | Inr s' \<Rightarrow> run s' es)"


text \<open>The continuation call that \<^verbatim>\<open>notify\<close> makes for a result.\<close>

definition outcome_of :: "js_object \<Rightarrow> outcome" where
  "outcome_of result =
     (if truthy (get_prop result ''ok'') then Resolved (get_prop result ''value'')
      else if has_prop ''error'' result then Rejected (get_prop result ''error'')
      else Rejected (JErr (JStr ''unknown error'')))"

section \<open>Callers that run on inside a continuation call\<close>

text \<open>
  A continuation call \<^verbatim>\<open>resolver.resolve(v)\<close> or \<^verbatim>\<open>resolver.reject(e)\<close> resumes the
  caller of the operation at once: what that caller does next runs inside \<^verbatim>\<open>notify\<close>,
  before \<^verbatim>\<open>notify\<close> returns to the loop of \<^verbatim>\<open>settle\<close> or to the body of the operation.
  So the actions of the callers are nested, not only one after the other. An action is
  what a caller can do with a broadcaster: invoke the operation (\<open>Await k\<close>, where \<open>k\<close> is
  what this caller does as soon as it is resumed), halt a suspended invocation, or call
  \<^verbatim>\<open>resolve\<close> or \<^verbatim>\<open>reject\<close>.
\<close>

datatype act = Await "act list" | Halt resolver | Call_resolve js_value | Call_reject js_value

text \<open>
  The work still to do is a stack, as the call stack of the program is: an action to run,
  or the rest of the loop of a call of \<^verbatim>\<open>settle\<close> that is under way.
\<close>

datatype frame = Do act | Loop

type_synonym continuations = "resolver \<Rightarrow> act list"

text \<open>
  A continuation call resumes the caller when the invocation is suspended or still in
  its body; the effect library ignores a call on an invocation that has completed or was
  cancelled.
\<close>

definition resumes :: "world \<Rightarrow> resolver \<Rightarrow> bool" where
  "resumes s r = (waiters s r = Pending \<or> waiters s r = Unregistered)"

text \<open>
  The head of \<^verbatim>\<open>settle\<close>, before its loop: nothing when \<^verbatim>\<open>settle\<close> has been rebound to
  \<^verbatim>\<open>() => {}\<close>, else the state in which the loop starts.
\<close>

definition settle_enter :: "js_object \<Rightarrow> world \<Rightarrow> world option" where
  "settle_enter result s =
     (if settle_live s
      then Some (if settlement s = None
                 then s\<lparr>settlement := Some result, settle_live := False\<rparr>
                 else s)
      else None)"

text \<open>
  The measure under which the execution ends: the actions on the stack and in the
  continuations of the members of the set, counted with their nested ones.
\<close>

fun act_weight :: "act \<Rightarrow> nat" where
  "act_weight (Await k) = 2 + 2 * sum_list (map act_weight k)"
| "act_weight (Halt r) = 1"
| "act_weight (Call_resolve v) = 2"
| "act_weight (Call_reject e) = 2"

fun frame_weight :: "frame \<Rightarrow> nat" where
  "frame_weight (Do a) = act_weight a"
| "frame_weight Loop = 1"

definition pending_weight :: "continuations \<Rightarrow> world \<Rightarrow> nat" where
  "pending_weight ks s = (\<Sum>r \<in> set (subscribers s). Suc (sum_list (map act_weight (ks r))))"

definition exec_weight :: "frame list \<times> continuations \<times> world \<Rightarrow> nat" where
  "exec_weight c =
     (case c of (st, ks, s) \<Rightarrow> sum_list (map frame_weight st) + pending_weight ks s)"

text \<open>
  The execution of a stack. \<open>ks\<close> holds, for every invocation, what its caller does once
  resumed. An invocation on a settled broadcaster is notified inside the body of the
  operation, and its caller runs on there. One turn of the loop of \<^verbatim>\<open>settle\<close> deletes the
  first member of the set and notifies it; its caller, resumed, runs on before the next
  turn. The iteration of the set is live, and every member visited or halted so far has
  been deleted, so the next turn takes the first member of what is left.
\<close>

function exec :: "frame list \<Rightarrow> continuations \<Rightarrow> world \<Rightarrow> js_exn + continuations \<times> world" where
  "exec [] ks s = Inr (ks, s)"
| "exec (Do (Await k) # st) ks s =
     (case settlement s of
        None \<Rightarrow> exec st (ks(next_resolver s := k)) (operation s)
      | Some result \<Rightarrow>
          exec ((if resumes s (next_resolver s) then map Do k else []) @ st)
               (ks(next_resolver s := k)) (operation s))"
| "exec (Do (Halt r) # st) ks s = exec st ks (cancel r s)"
| "exec (Do (Call_resolve v) # st) ks s =
     (case settle_enter (Ok v) s of
        None \<Rightarrow> exec st ks s
      | Some s1 \<Rightarrow> exec (Loop # st) ks s1)"
| "exec (Do (Call_reject e) # st) ks s =
     (case settle_enter (Err e) s of
        None \<Rightarrow> exec st ks s
      | Some s1 \<Rightarrow> exec (Loop # st) ks s1)"
| "exec (Loop # st) ks s =
     (case subscribers s of
        [] \<Rightarrow> exec st ks s
      | subscriber # rest \<Rightarrow>
          (case settlement s of
             None \<Rightarrow> Inl TypeError
           | Some result \<Rightarrow>
               exec ((if resumes (Set_delete subscriber s) subscriber
                      then map Do (ks subscriber) else []) @ Loop # st)
                    ks (notify result subscriber (Set_delete subscriber s))))"
  by pat_completeness auto

text \<open>
  The run of a program, a list of actions, on a new broadcaster: the final state, or the
  exception that ended it.
\<close>

definition run_program :: "act list \<Rightarrow> js_exn + world" where
  "run_program prog =
     (case exec (map Do prog) (\<lambda>r. []) withResolvers of
        Inl x \<Rightarrow> Inl x
      | Inr (ks, s) \<Rightarrow> Inr s)"

text \<open>
  An event of a run in which no caller does anything inside a continuation call, as an
  action.
\<close>

fun plain :: "event \<Rightarrow> act" where
  "plain Invoke = Await []"
| "plain (Cancel r) = Halt r"
| "plain (Resolve v) = Call_resolve v"
| "plain (Reject e) = Call_reject e"

text \<open>
  What a finished run shows: whether it returned, and the set, the trace and the state of
  an invocation at its end.
\<close>

definition returned :: "js_exn + world \<Rightarrow> bool" where
  "returned x = (case x of Inl e \<Rightarrow> False | Inr s \<Rightarrow> True)"

definition final_subscribers :: "js_exn + world \<Rightarrow> resolver list" where
  "final_subscribers x = (case x of Inl e \<Rightarrow> [] | Inr s \<Rightarrow> subscribers s)"

definition final_trace :: "js_exn + world \<Rightarrow> effect list" where
  "final_trace x = (case x of Inl e \<Rightarrow> [] | Inr s \<Rightarrow> trace s)"

definition final_waiter :: "js_exn + world \<Rightarrow> resolver \<Rightarrow> waiter" where
  "final_waiter x r = (case x of Inl e \<Rightarrow> Unregistered | Inr s \<Rightarrow> waiters s r)"

text \<open>The invocations that an action halts, itself or in a nested continuation.\<close>

fun halted :: "act \<Rightarrow> resolver list" where
  "halted (Await k) = concat (map halted k)"
| "halted (Halt r) = [r]"
| "halted (Call_resolve v) = []"
| "halted (Call_reject e) = []"

section \<open>Vocabulary of the properties\<close>

text \<open>
  The continuation calls that a trace holds for one resolver, in order, and those of all
  resolvers.
\<close>

fun calls_for :: "resolver \<Rightarrow> effect list \<Rightarrow> outcome list" where
  "calls_for r [] = []"
| "calls_for r (Called r' out # tr) = (if r' = r then out # calls_for r tr else calls_for r tr)"
| "calls_for r (e # tr) = calls_for r tr"

fun outcomes :: "effect list \<Rightarrow> outcome list" where
  "outcomes [] = []"
| "outcomes (Called r out # tr) = out # outcomes tr"
| "outcomes (e # tr) = outcomes tr"

text \<open>
  The effects of one run of the loop of \<^verbatim>\<open>settle\<close> over the members \<open>rs\<close>: each is deleted
  from the set, then notified.
\<close>

definition notified :: "outcome \<Rightarrow> resolver list \<Rightarrow> effect list" where
  "notified out rs = concat (map (\<lambda>r. [Deleted r, Called r out]) rs)"

text \<open>
  What holds of the variables of a broadcaster between two actions: the set holds each
  member once; \<^verbatim>\<open>settle\<close> is the function of the source exactly as long as nothing is
  settled; the members of the set are the suspended invocations; the set is empty once
  the broadcaster is settled; and the resolvers not yet created are the ones unknown to
  the effect library.
\<close>

definition structure_ok :: "world \<Rightarrow> bool" where
  "structure_ok s =
     (distinct (subscribers s) \<and>
      (settle_live s = (settlement s = None)) \<and>
      (\<forall>r. (r \<in> set (subscribers s)) = (waiters s r = Pending)) \<and>
      (settlement s = None \<or> subscribers s = []) \<and>
      (\<forall>r. next_resolver s \<le> r \<longrightarrow> waiters s r = Unregistered) \<and>
      (\<forall>r. r < next_resolver s \<longrightarrow> waiters s r \<noteq> Unregistered))"

text \<open>
  What holds of the trace between two actions: an invocation has received exactly the
  outcome it completed with and nothing otherwise; every outcome passed to a continuation
  is the one of the settlement; a resolver entered the set at most once, exactly when it
  has been suspended; and it left the set as often as it entered, unless it is still there.
\<close>

definition trace_ok :: "world \<Rightarrow> bool" where
  "trace_ok s =
     ((\<forall>r. calls_for r (trace s) = (case waiters s r of Resumed out \<Rightarrow> [out] | _ \<Rightarrow> [])) \<and>
      (\<forall>out \<in> set (outcomes (trace s)). map_option outcome_of (settlement s) = Some out) \<and>
      (\<forall>r. count_list (trace s) (Added r) \<le> 1) \<and>
      (\<forall>r. waiters s r = Unregistered \<longrightarrow> count_list (trace s) (Added r) = 0) \<and>
      (\<forall>r. waiters s r = Pending \<or> waiters s r = Cancelled \<longrightarrow> count_list (trace s) (Added r) = 1) \<and>
      (\<forall>r. count_list (trace s) (Deleted r) =
             (if waiters s r = Pending then 0 else count_list (trace s) (Added r))))"

text \<open>
  What holds of the variables also in the middle of the loop of \<^verbatim>\<open>settle\<close>, where the
  broadcaster is settled and the set is not yet empty.
\<close>

definition registry_ok :: "world \<Rightarrow> bool" where
  "registry_ok s =
     (distinct (subscribers s) \<and>
      (settle_live s = (settlement s = None)) \<and>
      (\<forall>r. (r \<in> set (subscribers s)) = (waiters s r = Pending)) \<and>
      (\<forall>r. next_resolver s \<le> r \<longrightarrow> waiters s r = Unregistered) \<and>
      (\<forall>r. r < next_resolver s \<longrightarrow> waiters s r \<noteq> Unregistered))"

text \<open>
  What holds of a stack and a state during an execution: a loop is under way only on a
  settled broadcaster, and a settled broadcaster whose set is not empty has a loop under
  way.
\<close>

definition machine_ok :: "frame list \<Rightarrow> world \<Rightarrow> bool" where
  "machine_ok st s =
     (registry_ok s \<and> trace_ok s \<and>
      (Loop \<in> set st \<longrightarrow> settlement s \<noteq> None) \<and>
      (settlement s = None \<or> subscribers s = [] \<or> Loop \<in> set st))"

text \<open>
  What every step keeps from a state to a later one: the trace grows at its end, a
  settlement stays, an invocation known to the effect library stays known, and an
  invocation that was cancelled or has completed stays as it is.
\<close>

definition advances :: "world \<Rightarrow> world \<Rightarrow> bool" where
  "advances s s' =
     ((\<exists>tr. trace s' = trace s @ tr) \<and>
      (settlement s \<noteq> None \<longrightarrow> settlement s' = settlement s) \<and>
      (\<forall>r. waiters s r \<noteq> Unregistered \<longrightarrow> waiters s' r \<noteq> Unregistered) \<and>
      (\<forall>r. waiters s r = Cancelled \<longrightarrow> waiters s' r = Cancelled) \<and>
      (\<forall>r out. waiters s r = Resumed out \<longrightarrow> waiters s' r = Resumed out))"

text \<open>
  No continuation of a member of the set halts the invocation \<open>r\<close>, itself or in a nested
  continuation.
\<close>

definition never_halted :: "resolver \<Rightarrow> continuations \<Rightarrow> world \<Rightarrow> bool" where
  "never_halted r ks s = (\<forall>w \<in> set (subscribers s). r \<notin> set (concat (map halted (ks w))))"

fun frame_halted :: "frame \<Rightarrow> resolver list" where
  "frame_halted (Do a) = halted a"
| "frame_halted Loop = []"

section \<open>Properties of the Result helpers\<close>

lemma set_prop_fresh: "\<not> has_prop k ps \<Longrightarrow> set_prop ps k v = ps @ [(k, v)]"
  by (induction ps) (auto simp: has_prop_def)

lemma get_prop_set_prop: "k' \<noteq> k \<Longrightarrow> get_prop (set_prop ps k v) k' = get_prop ps k'"
  by (induction ps) (auto simp: get_prop_def)

lemma roundtrip_gen: "\<not> has_prop ''cata'' r \<Longrightarrow> toResult (toFxResult r) = r"
proof -
  assume h: "\<not> has_prop ''cata'' r"
  then have "filter (\<lambda>(k, v). k \<noteq> ''cata'') r = r"
    by (induction r) (auto simp: has_prop_def)
  with h show ?thesis
    by (simp add: toFxResult_def toResult_def set_prop_fresh)
qed

lemma get_prop_set_prop_same: "get_prop (set_prop ps k v) k = v"
  by (induction ps) (auto simp: get_prop_def)

lemma keys_set_prop:
  "map fst (set_prop ps k v) = (if has_prop k ps then map fst ps else map fst ps @ [k])"
  by (induction ps) (force simp: has_prop_def)+

lemma has_prop_toResult: "\<not> has_prop ''cata'' (toResult x)"
  by (auto simp: has_prop_def toResult_def)

lemma get_prop_toResult: "k \<noteq> ''cata'' \<Longrightarrow> get_prop (toResult x) k = get_prop x k"
  by (induction x) (auto simp: get_prop_def toResult_def)

lemma keys_toResult: "map fst (toResult x) = filter (\<lambda>k. k \<noteq> ''cata'') (map fst x)"
  by (induction x) (auto simp: toResult_def)

lemma is_Result_toFxResult: "is_Result r \<Longrightarrow> is_Result (toFxResult r)"
  by (auto simp: is_Result_def toFxResult_def keys_set_prop get_prop_set_prop has_prop_def
           split: if_splits)

text \<open>
  Claim C8, as amended. \<^verbatim>\<open>toResult(toFxResult(r))\<close> equals \<open>r\<close>, with the same properties
  in the same order, exactly when \<open>r\<close> has no property \<^verbatim>\<open>cata\<close>: so for every
  \<^verbatim>\<open>Result<T>\<close> value without such a property, and for no \<^verbatim>\<open>FxResult<T>\<close>.
  \<^verbatim>\<open>toFxResult\<close> adds \<^verbatim>\<open>cata\<close> after the properties of such an \<open>r\<close>, sets it to the
  closure over \<open>r\<close>, leaves every other property as it is and returns a \<^verbatim>\<open>Result<T>\<close>
  for a \<^verbatim>\<open>Result<T>\<close>; \<^verbatim>\<open>toResult\<close> removes the property \<^verbatim>\<open>cata\<close> and nothing else.
\<close>

theorem toResult_toFxResult:
  "(toResult (toFxResult r) = r) = (\<not> has_prop ''cata'' r) \<and>
   (\<not> has_prop ''cata'' r \<longrightarrow> map fst (toFxResult r) = map fst r @ [''cata'']) \<and>
   (k \<noteq> ''cata'' \<longrightarrow> get_prop (toFxResult r) k = get_prop r k) \<and>
   get_prop (toFxResult r) ''cata'' = JFun ''cataFunction'' (JObj r) \<and>
   (is_Result r \<longrightarrow> is_Result (toFxResult r)) \<and>
   map fst (toResult x) = filter (\<lambda>k. k \<noteq> ''cata'') (map fst x) \<and>
   (k \<noteq> ''cata'' \<longrightarrow> get_prop (toResult x) k = get_prop x k)"
proof -
  have a: "(toResult (toFxResult r) = r) = (\<not> has_prop ''cata'' r)"
  proof (cases "has_prop ''cata'' r")
    case True
    have "\<not> has_prop ''cata'' (toResult (toFxResult r))" by (rule has_prop_toResult)
    then have "toResult (toFxResult r) \<noteq> r" using True by auto
    then show ?thesis using True by simp
  next
    case False
    then show ?thesis by (simp add: roundtrip_gen)
  qed
  show ?thesis
    using a
    by (simp add: toFxResult_def keys_set_prop get_prop_set_prop get_prop_set_prop_same
                  keys_toResult get_prop_toResult is_Result_toFxResult [unfolded toFxResult_def])
qed

text \<open>
  The round trip at the failure \<^verbatim>\<open>Err(new Error("boom"))\<close> and at a success that carries
  a third property.
\<close>

theorem toResult_toFxResult_witness:
  "is_Result (Err (JErr (JStr ''boom''))) \<and>
   \<not> has_prop ''cata'' (Err (JErr (JStr ''boom''))) \<and>
   toFxResult (Err (JErr (JStr ''boom''))) =
     [(''ok'', JBool False), (''error'', JErr (JStr ''boom'')),
      (''cata'', JFun ''cataFunction'' (JObj (Err (JErr (JStr ''boom'')))))] \<and>
   toResult (toFxResult (Err (JErr (JStr ''boom'')))) = Err (JErr (JStr ''boom'')) \<and>
   is_Result [(''ok'', JBool True), (''value'', JNum 1), (''note'', JStr ''kept'')] \<and>
   toResult (toFxResult [(''ok'', JBool True), (''value'', JNum 1), (''note'', JStr ''kept'')]) =
     [(''ok'', JBool True), (''value'', JNum 1), (''note'', JStr ''kept'')]"
  using toResult_toFxResult [of "Err (JErr (JStr ''boom''))" "''ok''" "[]"]
  by (simp add: is_Result_def toFxResult_def toResult_def Err_def get_prop_def has_prop_def)

text \<open>
  The claim as it was stated, for every \<^verbatim>\<open>Result<T>\<close> value, fails at an
  \<^verbatim>\<open>FxResult<T>\<close>: \<^verbatim>\<open>toFxResult(Ok(1))\<close> is a \<^verbatim>\<open>Result<T>\<close>, and the round trip
  returns it without its \<^verbatim>\<open>cata\<close>.
\<close>

theorem toResult_toFxResult_loses_cata:
  "is_Result (toFxResult (Ok (JNum 1))) \<and>
   toFxResult (Ok (JNum 1)) =
     [(''ok'', JBool True), (''value'', JNum 1),
      (''cata'', JFun ''cataFunction'' (JObj (Ok (JNum 1))))] \<and>
   toResult (toFxResult (toFxResult (Ok (JNum 1)))) = Ok (JNum 1) \<and>
   toResult (toFxResult (toFxResult (Ok (JNum 1)))) \<noteq> toFxResult (Ok (JNum 1))"
  by (simp add: is_Result_def toFxResult_def toResult_def Ok_def get_prop_def has_prop_def)


text \<open>
  Claim C9. \<^verbatim>\<open>isJSONString(s)\<close> is true exactly when \<^verbatim>\<open>JSON.parse(s)\<close> returns, and
  returns an object: it is false when the parsed value is a number, a boolean, a string
  or \<^verbatim>\<open>null\<close> (whose \<^verbatim>\<open>typeof\<close> is \<^verbatim>\<open>"object"\<close> too), and false, not an exception,
  when \<^verbatim>\<open>JSON.parse\<close> throws.
\<close>

theorem isJSONString_objects_only:
  "isJSONString parse s = (\<exists>v. parse s = Inr v \<and> object_value v) \<and>
   (parse s = Inr (JNum n) \<longrightarrow> isJSONString parse s = False) \<and>
   (parse s = Inr (JBool b) \<longrightarrow> isJSONString parse s = False) \<and>
   (parse s = Inr (JStr t) \<longrightarrow> isJSONString parse s = False) \<and>
   (parse s = Inr JNull \<longrightarrow> isJSONString parse s = False) \<and>
   (parse s = Inl x \<longrightarrow> isJSONString parse s = False)"
proof -
  have "isJSONString parse s = (\<exists>v. parse s = Inr v \<and> object_value v)"
  proof (cases "parse s")
    case (Inl x)
    then show ?thesis by (simp add: isJSONString_def)
  next
    case (Inr v)
    then show ?thesis by (cases v) (simp_all add: isJSONString_def)
  qed
  then show ?thesis by auto
qed

text \<open>The scalars \<^verbatim>\<open>42\<close>, \<^verbatim>\<open>true\<close>, \<^verbatim>\<open>"hi"\<close> and \<^verbatim>\<open>null\<close>, two objects, and an ill-formed text.\<close>

theorem isJSONString_objects_only_witness:
  "sample_parse ''42'' = Inr (JNum 42) \<and> isJSONString sample_parse ''42'' = False \<and>
   sample_parse ''true'' = Inr (JBool True) \<and> isJSONString sample_parse ''true'' = False \<and>
   sample_parse (CHR 0x22 # ''hi'' @ [CHR 0x22]) = Inr (JStr ''hi'') \<and>
   isJSONString sample_parse (CHR 0x22 # ''hi'' @ [CHR 0x22]) = False \<and>
   sample_parse ''null'' = Inr JNull \<and> isJSONString sample_parse ''null'' = False \<and>
   sample_parse ''{'' = Inl SyntaxError \<and> isJSONString sample_parse ''{'' = False \<and>
   isJSONString sample_parse ''{}'' = True \<and> isJSONString sample_parse ''[1]'' = True"
  using isJSONString_objects_only [of sample_parse "''42''" 42 True "''hi''" SyntaxError]
  by (simp add: sample_parse_def isJSONString_def)

text \<open>
  Claim C10. \<^verbatim>\<open>isResultDelphi\<close> throws a TypeError on \<^verbatim>\<open>null\<close> and on
  \<^verbatim>\<open>undefined\<close>, where its second disjunct reads \<^verbatim>\<open>arg.ok\<close>, and so do
  \<^verbatim>\<open>isResultLikeOk\<close> and \<^verbatim>\<open>isResultLikeErr\<close>, which call it first. On a number, a
  string or a boolean all three return \<^verbatim>\<open>false\<close>. \<^verbatim>\<open>null\<close> and \<^verbatim>\<open>undefined\<close> are the
  only values on which \<^verbatim>\<open>isResultDelphi\<close> throws.
\<close>

theorem isResultDelphi_throws_on_nullish:
  "isResultDelphi JNull = Inl TypeError \<and> isResultDelphi JUndefined = Inl TypeError \<and>
   isResultLikeOk JNull = Inl TypeError \<and> isResultLikeOk JUndefined = Inl TypeError \<and>
   isResultLikeErr JNull = Inl TypeError \<and> isResultLikeErr JUndefined = Inl TypeError \<and>
   isResultDelphi (JNum n) = Inr False \<and> isResultDelphi (JStr t) = Inr False \<and>
   isResultDelphi (JBool b) = Inr False \<and>
   isResultLikeOk (JNum n) = Inr False \<and> isResultLikeOk (JStr t) = Inr False \<and>
   isResultLikeOk (JBool b) = Inr False \<and>
   isResultLikeErr (JNum n) = Inr False \<and> isResultLikeErr (JStr t) = Inr False \<and>
   isResultLikeErr (JBool b) = Inr False \<and>
   ((\<exists>e. isResultDelphi arg = Inl e) = (arg = JNull \<or> arg = JUndefined))"
proof -
  have prim: "isResultDelphi JNull = Inl TypeError" "isResultDelphi JUndefined = Inl TypeError"
    "isResultDelphi (JNum n) = Inr False" "isResultDelphi (JStr t) = Inr False"
    "isResultDelphi (JBool b) = Inr False"
    by (simp_all add: isResultDelphi_def js_and_def js_or_def get_is_def js_in_def)
  have "(\<exists>e. isResultDelphi arg = Inl e) = (arg = JNull \<or> arg = JUndefined)"
    by (cases arg)
       (auto simp: isResultDelphi_def js_and_def js_or_def get_is_def js_in_def
             split: sum.splits if_splits)
  then show ?thesis
    using prim by (simp add: isResultLikeOk_def isResultLikeErr_def js_and_def)
qed

text \<open>
  The three predicates on zero, on the empty string, on \<^verbatim>\<open>false\<close> and on well-formed
  results.
\<close>

theorem isResultDelphi_throws_on_nullish_witness:
  "isResultDelphi (JNum 0) = Inr False \<and> isResultLikeOk (JStr []) = Inr False \<and>
   isResultLikeErr (JBool False) = Inr False \<and>
   isResultDelphi (JObj (Ok (JNum 1))) = Inr True \<and>
   isResultLikeOk (JObj (Ok (JNum 1))) = Inr True \<and>
   isResultLikeErr (JObj (Err (JStr ''no''))) = Inr True \<and>
   isResultLikeErr (JObj (Ok (JNum 1))) = Inr False"
  using isResultDelphi_throws_on_nullish [of 0 "[]" False "JObj (Ok (JNum 1))"]
  by (simp add: isResultDelphi_def isResultLikeOk_def isResultLikeErr_def js_and_def js_or_def
                get_is_def js_in_def Ok_def Err_def get_prop_def)

section \<open>Properties of the broadcast future\<close>

lemma notify_complete: "notify result r s = complete r (outcome_of result) s"
  by (simp add: notify_def outcome_of_def resolver_resolve_def resolver_reject_def)


lemma fresh_unregistered:
  "structure_ok s \<Longrightarrow> next_resolver s \<le> r \<Longrightarrow> waiters s r = Unregistered"
  by (simp add: structure_ok_def)



lemma cancel_pending:
  assumes "structure_ok s" "waiters s r = Pending"
  shows "cancel r s =
           s\<lparr>subscribers := removeAll r (subscribers s),
             waiters := (waiters s)(r := Cancelled),
             trace := trace s @ [Deleted r]\<rparr>"
proof -
  have "r \<in> set (subscribers s)" using assms by (simp add: structure_ok_def)
  then show ?thesis using assms(2) by (simp add: cancel_def Set_delete_def)
qed

lemma cancel_other: "waiters s r \<noteq> Pending \<Longrightarrow> cancel r s = s"
  by (simp add: cancel_def)



lemma calls_for_append: "calls_for r (xs @ ys) = calls_for r xs @ calls_for r ys"
  by (induction r xs rule: calls_for.induct) simp_all

lemma outcomes_append: "outcomes (xs @ ys) = outcomes xs @ outcomes ys"
  by (induction xs rule: outcomes.induct) simp_all






lemma trace_ok_withResolvers: "trace_ok withResolvers"
  by (simp add: trace_ok_def withResolvers_def)


lemma structure_ok_cancel: "structure_ok s \<Longrightarrow> structure_ok (cancel r s)"
proof (cases "waiters s r = Pending")
  case True
  assume ok: "structure_ok s"
  show ?thesis
    unfolding cancel_pending [OF ok True]
    using ok True fresh_unregistered [OF ok, of r]
    by (auto simp: structure_ok_def distinct_removeAll)
next
  case False
  assume "structure_ok s"
  then show ?thesis using False by (simp add: cancel_other)
qed



lemma trace_ok_cancel:
  assumes "structure_ok s" "trace_ok s"
  shows "trace_ok (cancel r s)"
proof (cases "waiters s r = Pending")
  case True
  show ?thesis
    unfolding cancel_pending [OF assms(1) True]
    using assms(2) True
    by (auto simp: trace_ok_def calls_for_append outcomes_append)
next
  case False
  then show ?thesis using assms(2) by (simp add: cancel_other)
qed


lemma settle_loop_total:
  "settlement s \<noteq> None \<Longrightarrow> \<exists>s'. settle_loop s = Inr s'"
proof (induction s rule: settle_loop.induct)
  case (1 s)
  show ?case
  proof (cases "subscribers s")
    case Nil
    then show ?thesis by (simp add: settle_loop.simps [of s])
  next
    case (Cons w rest)
    from "1.prems" obtain res where res: "settlement s = Some res" by auto
    have keep: "settlement (notify res w (Set_delete w s)) \<noteq> None"
      using res
      by (cases "waiters (Set_delete w s) w")
         (simp_all add: notify_complete complete_def Set_delete_def Let_def)
    from "1.IH" [OF Cons res keep] Cons res show ?thesis
      by (simp add: settle_loop.simps [of s])
  qed
qed

lemma settle_total: "\<exists>s'. settle res s = Inr s'"
  by (simp add: settle_def settle_loop_total)








lemma settlement_cancel: "settlement (cancel r s) = settlement s"
  by (simp add: cancel_def Set_delete_def)



lemma calls_subset_outcomes: "set (calls_for r tr) \<subseteq> set (outcomes tr)"
  by (induction r tr rule: calls_for.induct) auto

lemma outcome_of_Ok: "outcome_of (Ok v) = Resolved v"
  by (simp add: outcome_of_def Ok_def get_prop_def)

lemma outcome_of_Err: "outcome_of (Err e) = Rejected e"
  by (simp add: outcome_of_def Err_def get_prop_def has_prop_def)

lemmas eval_defs = resolve_def reject_def settle_def settle_loop.simps operation_def cancel_def
  notify_def resolver_resolve_def resolver_reject_def complete_def Set_add_def Set_delete_def
  withResolvers_def Ok_def Err_def get_prop_def has_prop_def Let_def outcome_of_def notified_def

text \<open>
  Claim C5. \<^verbatim>\<open>resolve\<close> and \<^verbatim>\<open>reject\<close> return normally in every state of the
  broadcaster's variables (settled or not, whatever the set holds, reachable or not) and
  for every argument: neither raises an exception. Neither contains a suspension point;
  as functions of the state they run to their end.
\<close>

theorem resolve_reject_total:
  "(\<exists>s'. resolve v s = Inr s') \<and> (\<exists>s'. reject e s = Inr s')"
  by (simp add: resolve_def reject_def settle_total)

text \<open>
  Both calls on a state that no run reaches: the set holds a resolver twice and one that
  was cancelled, and \<^verbatim>\<open>settle\<close> is live although a settlement is recorded.
\<close>

theorem resolve_reject_total_witness:
  "resolve (JNum 1)
     \<lparr>subscribers = [0, 1, 0], settlement = Some (Err JUndefined), settle_live = True,
      next_resolver = 0, waiters = (\<lambda>r. Unregistered)(0 := Pending, 1 := Cancelled),
      trace = []\<rparr> =
   Inr \<lparr>subscribers = [], settlement = Some (Err JUndefined), settle_live = True,
        next_resolver = 0,
        waiters = (\<lambda>r. Unregistered)(0 := Resumed (Rejected JUndefined), 1 := Cancelled),
        trace = [Deleted 0, Called 0 (Rejected JUndefined), Deleted 1,
                 Called 1 (Rejected JUndefined)]\<rparr> \<and>
   reject JNull withResolvers =
   Inr \<lparr>subscribers = [], settlement = Some (Err JNull), settle_live = False,
        next_resolver = 0, waiters = (\<lambda>r. Unregistered), trace = []\<rparr>"
  using resolve_reject_total
          [of "JNum 1"
              "\<lparr>subscribers = [0, 1, 0], settlement = Some (Err JUndefined), settle_live = True,
                next_resolver = 0, waiters = (\<lambda>r. Unregistered)(0 := Pending, 1 := Cancelled),
                trace = []\<rparr>" JNull]
  by (simp add: eval_defs fun_eq_iff)









lemma calls_for_complete:
  "calls_for r (trace (complete r out s)) = calls_for r (trace s) @ [out]"
  by (cases "waiters s r") (simp_all add: complete_def Set_delete_def Let_def calls_for_append)

text \<open>
  Claim C6. For a result whose \<^verbatim>\<open>ok\<close> is not truthy and that has no property
  \<^verbatim>\<open>error\<close>, \<^verbatim>\<open>notify\<close> calls the \<^verbatim>\<open>reject\<close> continuation of the resolver, once, with
  \<^verbatim>\<open>new Error("unknown error")\<close>, and \<^verbatim>\<open>ResultLikeToResult\<close> returns
  \<^verbatim>\<open>Err(new Error("unknown error"))\<close>.
\<close>

theorem unknown_error_default:
  assumes "\<not> truthy (get_prop result ''ok'')" and "\<not> has_prop ''error'' result"
  shows "notify result r s = resolver_reject r (JErr (JStr ''unknown error'')) s \<and>
         calls_for r (trace (notify result r s)) =
           calls_for r (trace s) @ [Rejected (JErr (JStr ''unknown error''))] \<and>
         ResultLikeToResult result = Err (JErr (JStr ''unknown error''))"
  using assms
  by (simp add: notify_def ResultLikeToResult_def resolver_reject_def calls_for_complete)

text \<open>The object \<^verbatim>\<open>{ ok: false }\<close>, notified to a suspended invocation.\<close>

theorem unknown_error_default_witness:
  "\<not> truthy (get_prop [(''ok'', JBool False)] ''ok'') \<and>
   \<not> has_prop ''error'' [(''ok'', JBool False)] \<and>
   trace (notify [(''ok'', JBool False)] 0 (operation withResolvers)) =
     [Added 0, Called 0 (Rejected (JErr (JStr ''unknown error''))), Deleted 0] \<and>
   ResultLikeToResult [(''ok'', JBool False)] =
     [(''ok'', JBool False), (''error'', JErr (JStr ''unknown error''))]"
proof -
  have h1: "\<not> truthy (get_prop [(''ok'', JBool False)] ''ok'')" by (simp add: get_prop_def)
  have h2: "\<not> has_prop ''error'' [(''ok'', JBool False)]" by (simp add: has_prop_def)
  show ?thesis
    using h1 h2 unknown_error_default [OF h1 h2, of 0 "operation withResolvers"]
    by (simp add: eval_defs ResultLikeToResult_def)
qed

section \<open>Properties of callers that run on inside a continuation call\<close>

text \<open>The execution of a stack ends: every step lowers the measure.\<close>

lemma sub_Set_delete: "set (subscribers (Set_delete r s)) = set (subscribers s) - {r}"
  by (auto simp: Set_delete_def)

lemma sub_complete: "set (subscribers (complete r out s)) \<subseteq> set (subscribers s)"
  by (cases "waiters s r") (auto simp: complete_def Set_delete_def Let_def)

lemma sub_notify: "set (subscribers (notify result r s)) \<subseteq> set (subscribers s)"
  by (simp add: notify_def resolver_resolve_def resolver_reject_def sub_complete)

lemma sub_cancel: "set (subscribers (cancel r s)) \<subseteq> set (subscribers s)"
  by (auto simp: cancel_def Set_delete_def)

lemma sub_operation_unsettled:
  "settlement s = None \<Longrightarrow>
   set (subscribers (operation s)) = insert (next_resolver s) (set (subscribers s))"
  by (auto simp: operation_def Set_add_def Let_def)

lemma sub_operation_settled:
  "settlement s = Some result \<Longrightarrow> set (subscribers (operation s)) \<subseteq> set (subscribers s)"
  using sub_notify [of result "next_resolver s" "s\<lparr>next_resolver := Suc (next_resolver s)\<rparr>"]
  by (simp add: operation_def Let_def)

lemma pending_weight_mono:
  "set (subscribers s') \<subseteq> set (subscribers s) \<Longrightarrow> pending_weight ks s' \<le> pending_weight ks s"
  unfolding pending_weight_def by (rule sum_mono2) auto

lemma pending_weight_update:
  "pending_weight (ks(n := k)) s \<le> pending_weight ks s + sum_list (map act_weight k)"
proof (cases "n \<in> set (subscribers s)")
  case True
  let ?S = "set (subscribers s)"
  have a: "(\<Sum>r \<in> ?S. Suc (sum_list (map act_weight ((ks(n := k)) r))))
        = Suc (sum_list (map act_weight k)) + (\<Sum>r \<in> ?S - {n}. Suc (sum_list (map act_weight (ks r))))"
    using True by (simp add: sum.remove [of ?S n])
  have b: "(\<Sum>r \<in> ?S. Suc (sum_list (map act_weight (ks r))))
        = Suc (sum_list (map act_weight (ks n))) + (\<Sum>r \<in> ?S - {n}. Suc (sum_list (map act_weight (ks r))))"
    using True by (simp add: sum.remove [of ?S n])
  show ?thesis unfolding pending_weight_def a b by simp
next
  case False
  then have "(\<Sum>r \<in> set (subscribers s). Suc (sum_list (map act_weight ((ks(n := k)) r))))
           = (\<Sum>r \<in> set (subscribers s). Suc (sum_list (map act_weight (ks r))))"
    by (intro sum.cong) auto
  then show ?thesis by (simp add: pending_weight_def)
qed

lemma pending_weight_insert:
  assumes "set (subscribers s') = insert n (set (subscribers s))"
  shows "pending_weight (ks(n := k)) s' \<le> pending_weight ks s + Suc (sum_list (map act_weight k))"
proof -
  let ?S = "set (subscribers s)"
  let ?f = "\<lambda>r. Suc (sum_list (map act_weight ((ks(n := k)) r)))"
  have "(\<Sum>r \<in> insert n ?S. ?f r) = ?f n + (\<Sum>r \<in> ?S - {n}. ?f r)"
    by (simp add: sum.insert_remove)
  also have "(\<Sum>r \<in> ?S - {n}. ?f r) = (\<Sum>r \<in> ?S - {n}. Suc (sum_list (map act_weight (ks r))))"
    by (intro sum.cong) auto
  also have "\<dots> \<le> (\<Sum>r \<in> ?S. Suc (sum_list (map act_weight (ks r))))"
    by (rule sum_mono2) auto
  finally show ?thesis using assms by (simp add: pending_weight_def)
qed

lemma pending_weight_remove:
  assumes "set (subscribers s') \<subseteq> set (subscribers s) - {w}" and "w \<in> set (subscribers s)"
  shows "pending_weight ks s' + Suc (sum_list (map act_weight (ks w))) \<le> pending_weight ks s"
proof -
  let ?S = "set (subscribers s)"
  let ?f = "\<lambda>r. Suc (sum_list (map act_weight (ks r)))"
  have "(\<Sum>r \<in> set (subscribers s'). ?f r) \<le> (\<Sum>r \<in> ?S - {w}. ?f r)"
    using assms(1) by (intro sum_mono2) auto
  moreover have "(\<Sum>r \<in> ?S. ?f r) = ?f w + (\<Sum>r \<in> ?S - {w}. ?f r)"
    using assms(2) by (simp add: sum.remove [of ?S w])
  ultimately show ?thesis by (simp add: pending_weight_def)
qed

termination exec
proof (relation "measure exec_weight")
  show "wf (measure exec_weight)" by simp
next
  fix k st ks and s :: world
  assume "settlement s = None"
  then have "set (subscribers (operation s)) = insert (next_resolver s) (set (subscribers s))"
    by (rule sub_operation_unsettled)
  then have "pending_weight (ks(next_resolver s := k)) (operation s)
               \<le> pending_weight ks s + Suc (sum_list (map act_weight k))"
    by (rule pending_weight_insert)
  then show "((st, ks(next_resolver s := k), operation s), Do (Await k) # st, ks, s) \<in> measure exec_weight"
    by (simp add: exec_weight_def)
next
  fix k st ks and s :: world and result
  assume st: "settlement s = Some result"
  have "pending_weight (ks(next_resolver s := k)) (operation s)
          \<le> pending_weight ks (operation s) + sum_list (map act_weight k)"
    by (rule pending_weight_update)
  also have "pending_weight ks (operation s) \<le> pending_weight ks s"
    using sub_operation_settled [OF st] by (rule pending_weight_mono)
  finally show "(((if resumes s (next_resolver s) then map Do k else []) @ st,
            ks(next_resolver s := k), operation s), Do (Await k) # st, ks, s) \<in> measure exec_weight"
    by (simp add: exec_weight_def comp_def)
next
  fix r st ks and s :: world
  have "pending_weight ks (cancel r s) \<le> pending_weight ks s"
    using sub_cancel by (rule pending_weight_mono)
  then show "((st, ks, cancel r s), Do (Halt r) # st, ks, s) \<in> measure exec_weight"
    by (simp add: exec_weight_def)
next
  fix v st ks and s :: world
  show "((st, ks, s), Do (Call_resolve v) # st, ks, s) \<in> measure exec_weight"
    by (simp add: exec_weight_def)
next
  fix v st ks and s s1 :: world
  assume "settle_enter (Ok v) s = Some s1"
  then have "subscribers s1 = subscribers s" by (auto simp: settle_enter_def split: if_splits)
  then show "((Loop # st, ks, s1), Do (Call_resolve v) # st, ks, s) \<in> measure exec_weight"
    by (simp add: exec_weight_def pending_weight_def)
next
  fix e st ks and s :: world
  show "((st, ks, s), Do (Call_reject e) # st, ks, s) \<in> measure exec_weight"
    by (simp add: exec_weight_def)
next
  fix e st ks and s s1 :: world
  assume "settle_enter (Err e) s = Some s1"
  then have "subscribers s1 = subscribers s" by (auto simp: settle_enter_def split: if_splits)
  then show "((Loop # st, ks, s1), Do (Call_reject e) # st, ks, s) \<in> measure exec_weight"
    by (simp add: exec_weight_def pending_weight_def)
next
  fix st ks and s :: world
  show "((st, ks, s), Loop # st, ks, s) \<in> measure exec_weight"
    by (simp add: exec_weight_def)
next
  fix st ks and s :: world and subscriber rest result
  assume sub: "subscribers s = subscriber # rest"
  have "set (subscribers (notify result subscriber (Set_delete subscriber s)))
          \<subseteq> set (subscribers s) - {subscriber}"
    using sub_notify [of result subscriber "Set_delete subscriber s"]
    by (simp add: sub_Set_delete)
  then have "pending_weight ks (notify result subscriber (Set_delete subscriber s))
               + Suc (sum_list (map act_weight (ks subscriber))) \<le> pending_weight ks s"
    using sub by (intro pending_weight_remove) auto
  then show "(((if resumes (Set_delete subscriber s) subscriber then map Do (ks subscriber) else []) @ Loop # st,
          ks, notify result subscriber (Set_delete subscriber s)), Loop # st, ks, s) \<in> measure exec_weight"
    by (simp add: exec_weight_def comp_def)
qed

declare exec.simps [simp del]

lemma structure_ok_registry:
  "structure_ok s = (registry_ok s \<and> (settlement s = None \<or> subscribers s = []))"
  by (auto simp: structure_ok_def registry_ok_def)

lemma fresh_unregistered_reg:
  "registry_ok s \<Longrightarrow> next_resolver s \<le> r \<Longrightarrow> waiters s r = Unregistered"
  by (simp add: registry_ok_def)

lemma operation_unsettled_reg:
  assumes "registry_ok s" "settlement s = None"
  shows "operation s =
           s\<lparr>subscribers := subscribers s @ [next_resolver s],
             next_resolver := Suc (next_resolver s),
             waiters := (waiters s)(next_resolver s := Pending),
             trace := trace s @ [Added (next_resolver s)]\<rparr>"
proof -
  have "waiters s (next_resolver s) = Unregistered"
    using assms(1) by (simp add: fresh_unregistered_reg)
  then have "next_resolver s \<notin> set (subscribers s)" using assms(1) by (simp add: registry_ok_def)
  then show ?thesis using assms(2) by (simp add: operation_def Set_add_def Let_def)
qed

lemma operation_settled_reg:
  assumes "registry_ok s" "settlement s = Some res"
  shows "operation s =
           s\<lparr>next_resolver := Suc (next_resolver s),
             waiters := (waiters s)(next_resolver s := Resumed (outcome_of res)),
             trace := trace s @ [Called (next_resolver s) (outcome_of res)]\<rparr>"
proof -
  have "waiters s (next_resolver s) = Unregistered"
    using assms(1) by (simp add: fresh_unregistered_reg)
  then show ?thesis using assms(2)
    by (simp add: operation_def notify_complete complete_def Let_def)
qed

lemma cancel_pending_reg:
  assumes "registry_ok s" "waiters s r = Pending"
  shows "cancel r s =
           s\<lparr>subscribers := removeAll r (subscribers s),
             waiters := (waiters s)(r := Cancelled),
             trace := trace s @ [Deleted r]\<rparr>"
proof -
  have "r \<in> set (subscribers s)" using assms by (simp add: registry_ok_def)
  then show ?thesis using assms(2) by (simp add: cancel_def Set_delete_def)
qed

lemma loop_turn_reg:
  assumes "registry_ok s" "subscribers s = w # rest"
  shows "notify res w (Set_delete w s) =
           s\<lparr>subscribers := rest,
             waiters := (waiters s)(w := Resumed (outcome_of res)),
             trace := trace s @ [Deleted w, Called w (outcome_of res)]\<rparr>"
    and "resumes (Set_delete w s) w"
proof -
  have d: "w \<notin> set rest" using assms by (auto simp: registry_ok_def)
  have p: "waiters s w = Pending" using assms by (auto simp: registry_ok_def)
  show "notify res w (Set_delete w s) =
           s\<lparr>subscribers := rest,
             waiters := (waiters s)(w := Resumed (outcome_of res)),
             trace := trace s @ [Deleted w, Called w (outcome_of res)]\<rparr>"
    using d p assms(2) by (simp add: notify_complete complete_def Set_delete_def Let_def)
  show "resumes (Set_delete w s) w"
    using p assms(2) by (simp add: resumes_def Set_delete_def)
qed

lemma settle_enter_reg:
  assumes "registry_ok s"
  shows "settle_enter res s =
           (if settlement s = None
            then Some (s\<lparr>settlement := Some res, settle_live := False\<rparr>) else None)"
  using assms by (auto simp: settle_enter_def registry_ok_def)

lemma registry_ok_operation: "registry_ok s \<Longrightarrow> registry_ok (operation s)"
proof (cases "settlement s")
  case None
  assume ok: "registry_ok s"
  show ?thesis
    unfolding operation_unsettled_reg [OF ok None]
    using ok None by (auto simp: registry_ok_def)
next
  case (Some res)
  assume ok: "registry_ok s"
  show ?thesis
    unfolding operation_settled_reg [OF ok Some]
    using ok Some by (auto simp: registry_ok_def)
qed

lemma registry_ok_cancel: "registry_ok s \<Longrightarrow> registry_ok (cancel r s)"
proof (cases "waiters s r = Pending")
  case True
  assume ok: "registry_ok s"
  show ?thesis
    unfolding cancel_pending_reg [OF ok True]
    using ok True by (auto simp: registry_ok_def distinct_removeAll)
next
  case False
  assume "registry_ok s"
  then show ?thesis using False by (simp add: cancel_other)
qed

lemma registry_ok_settle_enter:
  "registry_ok s \<Longrightarrow> settle_enter res s = Some s1 \<Longrightarrow> registry_ok s1"
  by (auto simp: settle_enter_reg registry_ok_def split: if_splits)

lemma registry_ok_loop_turn:
  assumes "registry_ok s" "subscribers s = w # rest"
  shows "registry_ok (notify res w (Set_delete w s))"
proof -
  have p: "waiters s w = Pending" using assms by (auto simp: registry_ok_def)
  show ?thesis
    unfolding loop_turn_reg(1) [OF assms]
    using assms p fresh_unregistered_reg [OF assms(1), of w] by (auto simp: registry_ok_def)
qed

lemma trace_ok_operation_reg:
  assumes "registry_ok s" "trace_ok s"
  shows "trace_ok (operation s)"
proof (cases "settlement s")
  case None
  have u: "waiters s (next_resolver s) = Unregistered"
    using assms(1) by (simp add: fresh_unregistered_reg)
  show ?thesis
    unfolding operation_unsettled_reg [OF assms(1) None]
    using assms(2) None u
    by (auto simp: trace_ok_def calls_for_append outcomes_append)
next
  case (Some res)
  have u: "waiters s (next_resolver s) = Unregistered"
    using assms(1) by (simp add: fresh_unregistered_reg)
  show ?thesis
    unfolding operation_settled_reg [OF assms(1) Some]
    using assms(2) Some u
    by (auto simp: trace_ok_def calls_for_append outcomes_append)
qed

lemma trace_ok_cancel_reg:
  assumes "registry_ok s" "trace_ok s"
  shows "trace_ok (cancel r s)"
proof (cases "waiters s r = Pending")
  case True
  show ?thesis
    unfolding cancel_pending_reg [OF assms(1) True]
    using assms(2) True
    by (auto simp: trace_ok_def calls_for_append outcomes_append)
next
  case False
  then show ?thesis using assms(2) by (simp add: cancel_other)
qed

lemma trace_ok_settle_enter:
  assumes "registry_ok s" "trace_ok s" "settle_enter res s = Some s1"
  shows "trace_ok s1"
proof -
  have un: "settlement s = None" and s1: "s1 = s\<lparr>settlement := Some res, settle_live := False\<rparr>"
    using assms(3) by (auto simp: settle_enter_reg [OF assms(1)] split: if_splits)
  have no: "outcomes (trace s) = []"
    using assms(2) un by (cases "outcomes (trace s)") (auto simp: trace_ok_def)
  show ?thesis unfolding s1 using assms(2) no by (simp add: trace_ok_def)
qed

lemma trace_ok_loop_turn:
  assumes "registry_ok s" "trace_ok s" "subscribers s = w # rest" "settlement s = Some res"
  shows "trace_ok (notify res w (Set_delete w s))"
proof -
  have p: "waiters s w = Pending" using assms(1,3) by (auto simp: registry_ok_def)
  show ?thesis
    unfolding loop_turn_reg(1) [OF assms(1,3)]
    using assms(2,4) p
    by (auto simp: trace_ok_def calls_for_append outcomes_append)
qed

lemma advances_refl: "advances s s"
  by (simp add: advances_def)

lemma advances_trans: "advances s s1 \<Longrightarrow> advances s1 s2 \<Longrightarrow> advances s s2"
  by (auto simp: advances_def)

lemma advances_operation: "registry_ok s \<Longrightarrow> advances s (operation s)"
proof (cases "settlement s")
  case None
  assume ok: "registry_ok s"
  have u: "waiters s (next_resolver s) = Unregistered"
    using ok by (simp add: fresh_unregistered_reg)
  show ?thesis
    unfolding operation_unsettled_reg [OF ok None] using u by (auto simp: advances_def)
next
  case (Some res)
  assume ok: "registry_ok s"
  have u: "waiters s (next_resolver s) = Unregistered"
    using ok by (simp add: fresh_unregistered_reg)
  show ?thesis
    unfolding operation_settled_reg [OF ok Some] using u by (auto simp: advances_def)
qed

lemma advances_cancel: "registry_ok s \<Longrightarrow> advances s (cancel r s)"
proof (cases "waiters s r = Pending")
  case True
  assume ok: "registry_ok s"
  show ?thesis
    unfolding cancel_pending_reg [OF ok True] using True by (auto simp: advances_def)
next
  case False
  then show ?thesis by (simp add: cancel_other advances_refl)
qed

lemma advances_settle_enter:
  "registry_ok s \<Longrightarrow> settle_enter res s = Some s1 \<Longrightarrow> advances s s1"
  by (auto simp: settle_enter_reg advances_def split: if_splits)

lemma advances_loop_turn:
  assumes "registry_ok s" "subscribers s = w # rest"
  shows "advances s (notify res w (Set_delete w s))"
proof -
  have p: "waiters s w = Pending" using assms by (auto simp: registry_ok_def)
  show ?thesis
    unfolding loop_turn_reg(1) [OF assms] using p by (auto simp: advances_def)
qed

lemma settlement_loop_turn:
  "registry_ok s \<Longrightarrow> subscribers s = w # rest \<Longrightarrow>
   settlement (notify res w (Set_delete w s)) = settlement s \<and>
   subscribers (notify res w (Set_delete w s)) = rest"
  by (simp add: loop_turn_reg(1))

lemma settlement_operation_reg: "registry_ok s \<Longrightarrow> settlement (operation s) = settlement s"
  by (cases "settlement s") (simp_all add: operation_unsettled_reg operation_settled_reg)

lemma subscribers_operation_settled:
  "registry_ok s \<Longrightarrow> settlement s = Some res \<Longrightarrow> subscribers (operation s) = subscribers s"
  by (simp add: operation_settled_reg)

lemma subscribers_cancel_empty: "subscribers s = [] \<Longrightarrow> subscribers (cancel r s) = []"
  by (simp add: cancel_def Set_delete_def)

lemma Loop_in_Do: "(Loop \<in> set ((if b then map Do k else []) @ st)) = (Loop \<in> set st)"
  by auto

lemma machine_ok_await_unsettled:
  "machine_ok (Do (Await k) # st) s \<Longrightarrow> settlement s = None \<Longrightarrow> machine_ok st (operation s)"
  by (auto simp: machine_ok_def registry_ok_operation trace_ok_operation_reg
                 settlement_operation_reg)

lemma machine_ok_await_settled:
  "machine_ok (Do (Await k) # st) s \<Longrightarrow> settlement s = Some res \<Longrightarrow>
   machine_ok ((if b then map Do k else []) @ st) (operation s)"
  unfolding machine_ok_def Loop_in_Do
  by (auto simp: registry_ok_operation trace_ok_operation_reg settlement_operation_reg
                 subscribers_operation_settled)

lemma machine_ok_halt: "machine_ok (Do (Halt r) # st) s \<Longrightarrow> machine_ok st (cancel r s)"
  by (auto simp: machine_ok_def registry_ok_cancel trace_ok_cancel_reg settlement_cancel
                 subscribers_cancel_empty)

lemma machine_ok_settle_none:
  "machine_ok (Do a # st) s \<Longrightarrow> machine_ok st s"
  by (auto simp: machine_ok_def)

lemma machine_ok_settle_some:
  "machine_ok (Do a # st) s \<Longrightarrow> settle_enter res s = Some s1 \<Longrightarrow> machine_ok (Loop # st) s1"
proof -
  assume m: "machine_ok (Do a # st) s" and e: "settle_enter res s = Some s1"
  have reg: "registry_ok s" and tr: "trace_ok s" using m by (simp_all add: machine_ok_def)
  have "registry_ok s1" using reg e by (rule registry_ok_settle_enter)
  moreover have "trace_ok s1" using reg tr e by (rule trace_ok_settle_enter)
  moreover have "settlement s1 \<noteq> None"
    using e by (auto simp: settle_enter_reg [OF reg] split: if_splits)
  ultimately show ?thesis by (simp add: machine_ok_def)
qed

lemma machine_ok_loop_done:
  "machine_ok (Loop # st) s \<Longrightarrow> subscribers s = [] \<Longrightarrow> machine_ok st s"
  by (auto simp: machine_ok_def)

lemma machine_ok_loop_turn:
  "machine_ok (Loop # st) s \<Longrightarrow> subscribers s = w # rest \<Longrightarrow> settlement s = Some res \<Longrightarrow>
   machine_ok ((if b then map Do k else []) @ Loop # st) (notify res w (Set_delete w s))"
  by (auto simp: machine_ok_def registry_ok_loop_turn trace_ok_loop_turn settlement_loop_turn)

lemma exec_facts_step:
  assumes "advances s s1"
    and "\<exists>ks' s'. exec st1 ks1 s1 = Inr (ks', s') \<and> structure_ok s' \<and> trace_ok s' \<and> advances s1 s'"
    and "exec st ks s = exec st1 ks1 s1"
  shows "\<exists>ks' s'. exec st ks s = Inr (ks', s') \<and> structure_ok s' \<and> trace_ok s' \<and> advances s s'"
proof -
  from assms(2) obtain ks' s' where
    e: "exec st1 ks1 s1 = Inr (ks', s')" and o: "structure_ok s'" "trace_ok s'"
    and a: "advances s1 s'"
    by blast
  have "advances s s'" using assms(1) a by (rule advances_trans)
  then show ?thesis using e o assms(3) by simp
qed

lemma exec_facts:
  "machine_ok st s \<Longrightarrow>
   \<exists>ks' s'. exec st ks s = Inr (ks', s') \<and> structure_ok s' \<and> trace_ok s' \<and> advances s s'"
proof (induction st ks s rule: exec.induct)
  case (1 ks s)
  then show ?case
    by (simp add: exec.simps machine_ok_def structure_ok_registry advances_refl)
next
  case (2 k st ks s)
  have reg: "registry_ok s" using "2.prems" by (simp add: machine_ok_def)
  show ?case
  proof (cases "settlement s")
    case None
    show ?thesis
    proof (rule exec_facts_step [OF advances_operation [OF reg]])
      show "\<exists>ks' s'. exec st (ks(next_resolver s := k)) (operation s) = Inr (ks', s') \<and>
              structure_ok s' \<and> trace_ok s' \<and> advances (operation s) s'"
        using "2.IH"(1) [OF None machine_ok_await_unsettled [OF "2.prems" None]]
        by (simp add: fun_upd_def)
      show "exec (Do (Await k) # st) ks s = exec st (ks(next_resolver s := k)) (operation s)"
        using None by (simp add: exec.simps)
    qed
  next
    case (Some res)
    let ?st = "(if resumes s (next_resolver s) then map Do k else []) @ st"
    show ?thesis
    proof (rule exec_facts_step [OF advances_operation [OF reg]])
      show "\<exists>ks' s'. exec ?st (ks(next_resolver s := k)) (operation s) = Inr (ks', s') \<and>
              structure_ok s' \<and> trace_ok s' \<and> advances (operation s) s'"
        using "2.IH"(2) [OF Some machine_ok_await_settled [OF "2.prems" Some]]
        by (simp add: fun_upd_def)
      show "exec (Do (Await k) # st) ks s = exec ?st (ks(next_resolver s := k)) (operation s)"
        using Some by (simp add: exec.simps)
    qed
  qed
next
  case (3 r st ks s)
  have reg: "registry_ok s" using "3.prems" by (simp add: machine_ok_def)
  show ?case
  proof (rule exec_facts_step [OF advances_cancel [OF reg]])
    show "\<exists>ks' s'. exec st ks (cancel r s) = Inr (ks', s') \<and>
            structure_ok s' \<and> trace_ok s' \<and> advances (cancel r s) s'"
      using "3.IH" [OF machine_ok_halt [OF "3.prems"]] .
    show "exec (Do (Halt r) # st) ks s = exec st ks (cancel r s)"
      by (simp add: exec.simps)
  qed
next
  case (4 v st ks s)
  have reg: "registry_ok s" using "4.prems" by (simp add: machine_ok_def)
  show ?case
  proof (cases "settle_enter (Ok v) s")
    case None
    show ?thesis
    proof (rule exec_facts_step [OF advances_refl])
      show "\<exists>ks' s'. exec st ks s = Inr (ks', s') \<and>
              structure_ok s' \<and> trace_ok s' \<and> advances s s'"
        using "4.IH"(1) [OF None machine_ok_settle_none [OF "4.prems"]] .
      show "exec (Do (Call_resolve v) # st) ks s = exec st ks s"
        using None by (simp add: exec.simps)
    qed
  next
    case (Some s1)
    show ?thesis
    proof (rule exec_facts_step [OF advances_settle_enter [OF reg Some]])
      show "\<exists>ks' s'. exec (Loop # st) ks s1 = Inr (ks', s') \<and>
              structure_ok s' \<and> trace_ok s' \<and> advances s1 s'"
        using "4.IH"(2) [OF Some machine_ok_settle_some [OF "4.prems" Some]] .
      show "exec (Do (Call_resolve v) # st) ks s = exec (Loop # st) ks s1"
        using Some by (simp add: exec.simps)
    qed
  qed
next
  case (5 e st ks s)
  have reg: "registry_ok s" using "5.prems" by (simp add: machine_ok_def)
  show ?case
  proof (cases "settle_enter (Err e) s")
    case None
    show ?thesis
    proof (rule exec_facts_step [OF advances_refl])
      show "\<exists>ks' s'. exec st ks s = Inr (ks', s') \<and>
              structure_ok s' \<and> trace_ok s' \<and> advances s s'"
        using "5.IH"(1) [OF None machine_ok_settle_none [OF "5.prems"]] .
      show "exec (Do (Call_reject e) # st) ks s = exec st ks s"
        using None by (simp add: exec.simps)
    qed
  next
    case (Some s1)
    show ?thesis
    proof (rule exec_facts_step [OF advances_settle_enter [OF reg Some]])
      show "\<exists>ks' s'. exec (Loop # st) ks s1 = Inr (ks', s') \<and>
              structure_ok s' \<and> trace_ok s' \<and> advances s1 s'"
        using "5.IH"(2) [OF Some machine_ok_settle_some [OF "5.prems" Some]] .
      show "exec (Do (Call_reject e) # st) ks s = exec (Loop # st) ks s1"
        using Some by (simp add: exec.simps)
    qed
  qed
next
  case (6 st ks s)
  have reg: "registry_ok s" using "6.prems" by (simp add: machine_ok_def)
  show ?case
  proof (cases "subscribers s")
    case Nil
    show ?thesis
    proof (rule exec_facts_step [OF advances_refl])
      show "\<exists>ks' s'. exec st ks s = Inr (ks', s') \<and>
              structure_ok s' \<and> trace_ok s' \<and> advances s s'"
        using "6.IH"(1) [OF Nil machine_ok_loop_done [OF "6.prems" Nil]] .
      show "exec (Loop # st) ks s = exec st ks s"
        using Nil by (simp add: exec.simps)
    qed
  next
    case (Cons w rest)
    from "6.prems" obtain res where res: "settlement s = Some res"
      by (auto simp: machine_ok_def)
    let ?st = "(if resumes (Set_delete w s) w then map Do (ks w) else []) @ Loop # st"
    let ?s1 = "notify res w (Set_delete w s)"
    show ?thesis
    proof (rule exec_facts_step [OF advances_loop_turn [OF reg Cons]])
      show "\<exists>ks' s'. exec ?st ks ?s1 = Inr (ks', s') \<and>
              structure_ok s' \<and> trace_ok s' \<and> advances ?s1 s'"
        using "6.IH"(2) [OF Cons res machine_ok_loop_turn [OF "6.prems" Cons res]] .
      show "exec (Loop # st) ks s = exec ?st ks ?s1"
        using Cons res by (simp add: exec.simps)
    qed
  qed
qed

lemma exec_append:
  "exec (st @ st') ks s =
     (case exec st ks s of Inl x \<Rightarrow> Inl x | Inr (ks1, s1) \<Rightarrow> exec st' ks1 s1)"
proof (induction st ks s rule: exec.induct)
  case (1 ks s)
  show ?case by (simp add: exec.simps)
next
  case (2 k st ks s)
  then show ?case by (cases "settlement s") (simp_all add: exec.simps fun_upd_def)
next
  case (3 r st ks s)
  then show ?case by (simp add: exec.simps)
next
  case (4 v st ks s)
  then show ?case by (cases "settle_enter (Ok v) s") (simp_all add: exec.simps)
next
  case (5 e st ks s)
  then show ?case by (cases "settle_enter (Err e) s") (simp_all add: exec.simps)
next
  case (6 st ks s)
  show ?case
  proof (cases "subscribers s")
    case Nil
    then show ?thesis using "6.IH"(1) by (simp add: exec.simps)
  next
    case (Cons w rest)
    show ?thesis
    proof (cases "settlement s")
      case None
      then show ?thesis using Cons by (simp add: exec.simps)
    next
      case (Some res)
      then show ?thesis using Cons "6.IH"(2) [OF Cons Some] by (simp add: exec.simps)
    qed
  qed
qed

lemma exec_not_halted:
  "machine_ok st s \<Longrightarrow> exec st ks s = Inr (ks', s') \<Longrightarrow>
   \<forall>f \<in> set st. r \<notin> set (frame_halted f) \<Longrightarrow> never_halted r ks s \<Longrightarrow>
   waiters s r \<noteq> Cancelled \<Longrightarrow> waiters s' r \<noteq> Cancelled"
proof (induction st ks s rule: exec.induct)
  case (1 ks s)
  then show ?case by (simp add: exec.simps)
next
  case (2 k st ks s)
  have reg: "registry_ok s" using "2.prems"(1) by (simp add: machine_ok_def)
  have u: "waiters s (next_resolver s) = Unregistered"
    using reg by (simp add: fresh_unregistered_reg)
  have nk: "\<forall>a \<in> set k. r \<notin> set (halted a)" and nst: "\<forall>f \<in> set st. r \<notin> set (frame_halted f)"
    using "2.prems"(3) by auto
  have nin: "next_resolver s \<notin> set (subscribers s)" using reg u by (simp add: registry_ok_def)
  show ?case
  proof (cases "settlement s")
    case None
    have e: "exec st (ks(next_resolver s := k)) (operation s) = Inr (ks', s')"
      using "2.prems"(2) None by (simp add: exec.simps)
    have nh: "never_halted r (ks(next_resolver s := k)) (operation s)"
      using "2.prems"(4) nk nin
      by (auto simp: never_halted_def operation_unsettled_reg [OF reg None])
    have w: "waiters (operation s) r \<noteq> Cancelled"
      using "2.prems"(5) by (simp add: operation_unsettled_reg [OF reg None])
    show ?thesis
      using "2.IH"(1) [OF None machine_ok_await_unsettled [OF "2.prems"(1) None]]
            e nst nh w
      by (simp add: fun_upd_def)
  next
    case (Some res)
    let ?st = "(if resumes s (next_resolver s) then map Do k else []) @ st"
    have e: "exec ?st (ks(next_resolver s := k)) (operation s) = Inr (ks', s')"
      using "2.prems"(2) Some by (simp add: exec.simps)
    have nst': "\<forall>f \<in> set ?st. r \<notin> set (frame_halted f)"
      using nk nst by auto
    have nh: "never_halted r (ks(next_resolver s := k)) (operation s)"
      using "2.prems"(4) nin
      by (auto simp: never_halted_def operation_settled_reg [OF reg Some])
    have w: "waiters (operation s) r \<noteq> Cancelled"
      using "2.prems"(5) by (simp add: operation_settled_reg [OF reg Some])
    show ?thesis
      using "2.IH"(2) [OF Some machine_ok_await_settled [OF "2.prems"(1) Some]]
            e nst' nh w
      by (simp add: fun_upd_def)
  qed
next
  case (3 r' st ks s)
  have reg: "registry_ok s" using "3.prems"(1) by (simp add: machine_ok_def)
  have ne: "r' \<noteq> r" and nst: "\<forall>f \<in> set st. r \<notin> set (frame_halted f)"
    using "3.prems"(3) by auto
  have e: "exec st ks (cancel r' s) = Inr (ks', s')"
    using "3.prems"(2) by (simp add: exec.simps)
  have nh: "never_halted r ks (cancel r' s)"
    using "3.prems"(4) sub_cancel [of r' s] by (auto simp: never_halted_def)
  have w: "waiters (cancel r' s) r \<noteq> Cancelled"
    using "3.prems"(5) ne by (auto simp: cancel_def Set_delete_def)
  show ?case using "3.IH" [OF machine_ok_halt [OF "3.prems"(1)] e nst nh w] .
next
  case (4 v st ks s)
  have reg: "registry_ok s" using "4.prems"(1) by (simp add: machine_ok_def)
  have nst: "\<forall>f \<in> set st. r \<notin> set (frame_halted f)" using "4.prems"(3) by auto
  show ?case
  proof (cases "settle_enter (Ok v) s")
    case None
    have e: "exec st ks s = Inr (ks', s')" using "4.prems"(2) None by (simp add: exec.simps)
    show ?thesis
      using "4.IH"(1) [OF None machine_ok_settle_none [OF "4.prems"(1)] e nst "4.prems"(4,5)] .
  next
    case (Some s1)
    have e: "exec (Loop # st) ks s1 = Inr (ks', s')"
      using "4.prems"(2) Some by (simp add: exec.simps)
    have s1: "subscribers s1 = subscribers s" "waiters s1 = waiters s"
      using Some by (auto simp: settle_enter_def split: if_splits)
    have nst': "\<forall>f \<in> set (Loop # st). r \<notin> set (frame_halted f)" using nst by simp
    have nh: "never_halted r ks s1" using "4.prems"(4) s1 by (simp add: never_halted_def)
    have w: "waiters s1 r \<noteq> Cancelled" using "4.prems"(5) s1 by simp
    show ?thesis
      using "4.IH"(2) [OF Some machine_ok_settle_some [OF "4.prems"(1) Some] e nst' nh w] .
  qed
next
  case (5 v st ks s)
  have reg: "registry_ok s" using "5.prems"(1) by (simp add: machine_ok_def)
  have nst: "\<forall>f \<in> set st. r \<notin> set (frame_halted f)" using "5.prems"(3) by auto
  show ?case
  proof (cases "settle_enter (Err v) s")
    case None
    have e: "exec st ks s = Inr (ks', s')" using "5.prems"(2) None by (simp add: exec.simps)
    show ?thesis
      using "5.IH"(1) [OF None machine_ok_settle_none [OF "5.prems"(1)] e nst "5.prems"(4,5)] .
  next
    case (Some s1)
    have e: "exec (Loop # st) ks s1 = Inr (ks', s')"
      using "5.prems"(2) Some by (simp add: exec.simps)
    have s1: "subscribers s1 = subscribers s" "waiters s1 = waiters s"
      using Some by (auto simp: settle_enter_def split: if_splits)
    have nst': "\<forall>f \<in> set (Loop # st). r \<notin> set (frame_halted f)" using nst by simp
    have nh: "never_halted r ks s1" using "5.prems"(4) s1 by (simp add: never_halted_def)
    have w: "waiters s1 r \<noteq> Cancelled" using "5.prems"(5) s1 by simp
    show ?thesis
      using "5.IH"(2) [OF Some machine_ok_settle_some [OF "5.prems"(1) Some] e nst' nh w] .
  qed
next
  case (6 st ks s)
  have reg: "registry_ok s" using "6.prems"(1) by (simp add: machine_ok_def)
  have nst: "\<forall>f \<in> set st. r \<notin> set (frame_halted f)" using "6.prems"(3) by auto
  show ?case
  proof (cases "subscribers s")
    case Nil
    have e: "exec st ks s = Inr (ks', s')" using "6.prems"(2) Nil by (simp add: exec.simps)
    show ?thesis
      using "6.IH"(1) [OF Nil machine_ok_loop_done [OF "6.prems"(1) Nil] e nst "6.prems"(4,5)] .
  next
    case (Cons w rest)
    from "6.prems"(1) obtain res where res: "settlement s = Some res"
      by (auto simp: machine_ok_def)
    let ?st = "(if resumes (Set_delete w s) w then map Do (ks w) else []) @ Loop # st"
    let ?s1 = "notify res w (Set_delete w s)"
    have e: "exec ?st ks ?s1 = Inr (ks', s')"
      using "6.prems"(2) Cons res by (simp add: exec.simps)
    have kw: "\<forall>a \<in> set (ks w). r \<notin> set (halted a)"
      using "6.prems"(4) Cons by (auto simp: never_halted_def)
    have nst': "\<forall>f \<in> set ?st. r \<notin> set (frame_halted f)" using kw nst by auto
    have nh: "never_halted r ks ?s1"
      using "6.prems"(4) Cons by (auto simp: never_halted_def loop_turn_reg(1) [OF reg Cons])
    have w: "waiters ?s1 r \<noteq> Cancelled"
      using "6.prems"(5) by (simp add: loop_turn_reg(1) [OF reg Cons])
    show ?thesis
      using "6.IH"(2) [OF Cons res machine_ok_loop_turn [OF "6.prems"(1) Cons res] e nst' nh w] .
  qed
qed

lemma exec_advances:
  assumes "machine_ok st s" "exec st ks s = Inr (ks', s')"
  shows "structure_ok s'" "trace_ok s'" "advances s s'"
  using exec_facts [OF assms(1), of ks] assms(2) by auto

lemma exec_deleted_then_called:
  "machine_ok st s \<Longrightarrow> exec st ks s = Inr (ks', s') \<Longrightarrow> waiters s r = Pending \<Longrightarrow>
   waiters s' r = Resumed out \<Longrightarrow> \<exists>tr1 tr2. trace s' = tr1 @ [Deleted r, Called r out] @ tr2"
proof (induction st ks s rule: exec.induct)
  case (1 ks s)
  then show ?case by (simp add: exec.simps)
next
  case (2 k st ks s)
  have reg: "registry_ok s" using "2.prems"(1) by (simp add: machine_ok_def)
  have u: "waiters s (next_resolver s) = Unregistered"
    using reg by (simp add: fresh_unregistered_reg)
  then have ne: "r \<noteq> next_resolver s" using "2.prems"(3) by auto
  show ?case
  proof (cases "settlement s")
    case None
    have e: "exec st (ks(next_resolver s := k)) (operation s) = Inr (ks', s')"
      using "2.prems"(2) None by (simp add: exec.simps)
    have w: "waiters (operation s) r = Pending"
      using "2.prems"(3) ne by (simp add: operation_unsettled_reg [OF reg None])
    show ?thesis
      using "2.IH"(1) [OF None machine_ok_await_unsettled [OF "2.prems"(1) None]]
            e w "2.prems"(4)
      by (simp add: fun_upd_def)
  next
    case (Some res)
    let ?st = "(if resumes s (next_resolver s) then map Do k else []) @ st"
    have e: "exec ?st (ks(next_resolver s := k)) (operation s) = Inr (ks', s')"
      using "2.prems"(2) Some by (simp add: exec.simps)
    have w: "waiters (operation s) r = Pending"
      using "2.prems"(3) ne by (simp add: operation_settled_reg [OF reg Some])
    show ?thesis
      using "2.IH"(2) [OF Some machine_ok_await_settled [OF "2.prems"(1) Some]]
            e w "2.prems"(4)
      by (simp add: fun_upd_def)
  qed
next
  case (3 r' st ks s)
  have reg: "registry_ok s" using "3.prems"(1) by (simp add: machine_ok_def)
  have e: "exec st ks (cancel r' s) = Inr (ks', s')"
    using "3.prems"(2) by (simp add: exec.simps)
  have mo: "machine_ok st (cancel r' s)" using "3.prems"(1) by (rule machine_ok_halt)
  show ?case
  proof (cases "r' = r")
    case True
    have "waiters (cancel r' s) r = Cancelled"
      using True "3.prems"(3) by (simp add: cancel_pending_reg [OF reg])
    then have "waiters s' r = Cancelled"
      using exec_advances(3) [OF mo e] by (simp add: advances_def)
    then show ?thesis using "3.prems"(4) by simp
  next
    case False
    then have w: "waiters (cancel r' s) r = Pending"
      using "3.prems"(3) by (auto simp: cancel_def Set_delete_def)
    show ?thesis using "3.IH" [OF mo e w "3.prems"(4)] .
  qed
next
  case (4 v st ks s)
  show ?case
  proof (cases "settle_enter (Ok v) s")
    case None
    have e: "exec st ks s = Inr (ks', s')" using "4.prems"(2) None by (simp add: exec.simps)
    show ?thesis
      using "4.IH"(1) [OF None machine_ok_settle_none [OF "4.prems"(1)] e "4.prems"(3,4)] .
  next
    case (Some s1)
    have e: "exec (Loop # st) ks s1 = Inr (ks', s')"
      using "4.prems"(2) Some by (simp add: exec.simps)
    have w: "waiters s1 r = Pending"
      using Some "4.prems"(3) by (auto simp: settle_enter_def split: if_splits)
    show ?thesis
      using "4.IH"(2) [OF Some machine_ok_settle_some [OF "4.prems"(1) Some] e w "4.prems"(4)] .
  qed
next
  case (5 v st ks s)
  show ?case
  proof (cases "settle_enter (Err v) s")
    case None
    have e: "exec st ks s = Inr (ks', s')" using "5.prems"(2) None by (simp add: exec.simps)
    show ?thesis
      using "5.IH"(1) [OF None machine_ok_settle_none [OF "5.prems"(1)] e "5.prems"(3,4)] .
  next
    case (Some s1)
    have e: "exec (Loop # st) ks s1 = Inr (ks', s')"
      using "5.prems"(2) Some by (simp add: exec.simps)
    have w: "waiters s1 r = Pending"
      using Some "5.prems"(3) by (auto simp: settle_enter_def split: if_splits)
    show ?thesis
      using "5.IH"(2) [OF Some machine_ok_settle_some [OF "5.prems"(1) Some] e w "5.prems"(4)] .
  qed
next
  case (6 st ks s)
  have reg: "registry_ok s" using "6.prems"(1) by (simp add: machine_ok_def)
  show ?case
  proof (cases "subscribers s")
    case Nil
    have e: "exec st ks s = Inr (ks', s')" using "6.prems"(2) Nil by (simp add: exec.simps)
    show ?thesis
      using "6.IH"(1) [OF Nil machine_ok_loop_done [OF "6.prems"(1) Nil] e "6.prems"(3,4)] .
  next
    case (Cons w rest)
    from "6.prems"(1) obtain res where res: "settlement s = Some res"
      by (auto simp: machine_ok_def)
    let ?st = "(if resumes (Set_delete w s) w then map Do (ks w) else []) @ Loop # st"
    let ?s1 = "notify res w (Set_delete w s)"
    have e: "exec ?st ks ?s1 = Inr (ks', s')"
      using "6.prems"(2) Cons res by (simp add: exec.simps)
    have mo: "machine_ok ?st ?s1" using "6.prems"(1) Cons res by (rule machine_ok_loop_turn)
    show ?thesis
    proof (cases "w = r")
      case True
      have t1: "trace ?s1 = trace s @ [Deleted r, Called r (outcome_of res)]"
        and w1: "waiters ?s1 r = Resumed (outcome_of res)"
        using True loop_turn_reg(1) [OF reg Cons, of res] by simp_all
      have adv: "advances ?s1 s'" using exec_advances(3) [OF mo e] .
      then have "waiters s' r = Resumed (outcome_of res)" using w1 by (simp add: advances_def)
      then have o: "out = outcome_of res" using "6.prems"(4) by simp
      from adv obtain tr where "trace s' = trace ?s1 @ tr" by (auto simp: advances_def)
      then have "trace s' = trace s @ [Deleted r, Called r out] @ tr" using t1 o by simp
      then show ?thesis by blast
    next
      case False
      then have w: "waiters ?s1 r = Pending"
        using "6.prems"(3) by (simp add: loop_turn_reg(1) [OF reg Cons])
      show ?thesis using "6.IH"(2) [OF Cons res mo e w "6.prems"(4)] .
    qed
  qed
qed

text \<open>The loop of a settling call, from the state in which it starts.\<close>

lemma settling_loop:
  assumes ok: "structure_ok s" "trace_ok s" and un: "settlement s = None"
  shows "\<exists>ks' s'. exec [Loop] ks (s\<lparr>settlement := Some res, settle_live := False\<rparr>) = Inr (ks', s') \<and>
           settlement s' = Some res \<and> subscribers s' = [] \<and> structure_ok s' \<and> trace_ok s' \<and>
           advances s s' \<and>
           (\<forall>r. waiters s r = Pending \<longrightarrow>
                 count_list (trace s') (Deleted r) = 1 \<and>
                 (if waiters s' r = Cancelled then calls_for r (trace s') = []
                  else waiters s' r = Resumed (outcome_of res) \<and>
                       calls_for r (trace s') = [outcome_of res] \<and>
                       (\<exists>tr1 tr2. trace s' = tr1 @ [Deleted r, Called r (outcome_of res)] @ tr2))) \<and>
           (\<forall>r. waiters s r = Pending \<and> never_halted r ks s \<longrightarrow>
                 waiters s' r = Resumed (outcome_of res))"
proof -
  let ?s1 = "s\<lparr>settlement := Some res, settle_live := False\<rparr>"
  have reg: "registry_ok s" using ok(1) by (simp add: structure_ok_registry)
  have en: "settle_enter res s = Some ?s1" using un by (simp add: settle_enter_reg [OF reg])
  have m0: "machine_ok [Do (Call_resolve JUndefined)] s"
    using ok reg by (auto simp: machine_ok_def structure_ok_registry)
  have m1: "machine_ok [Loop] ?s1" using m0 en by (rule machine_ok_settle_some)
  from exec_facts [OF m1, of ks] obtain ks' s' where
    e: "exec [Loop] ks ?s1 = Inr (ks', s')" and ok': "structure_ok s'" "trace_ok s'"
    and adv1: "advances ?s1 s'"
    by blast
  have adv: "advances s s'"
    using advances_settle_enter [OF reg en] adv1 by (rule advances_trans)
  have st: "settlement s' = Some res" using adv1 by (simp add: advances_def)
  have em: "subscribers s' = []" using ok'(1) st by (auto simp: structure_ok_def)
  have fate: "count_list (trace s') (Deleted r) = 1 \<and>
                 (if waiters s' r = Cancelled then calls_for r (trace s') = []
                  else waiters s' r = Resumed (outcome_of res) \<and>
                       calls_for r (trace s') = [outcome_of res] \<and>
                       (\<exists>tr1 tr2. trace s' = tr1 @ [Deleted r, Called r (outcome_of res)] @ tr2))"
    if p: "waiters s r = Pending" for r
  proof -
    have nu: "waiters s' r \<noteq> Unregistered" using adv p by (simp add: advances_def)
    have np: "waiters s' r \<noteq> Pending" using ok'(1) em by (auto simp: structure_ok_def)
    have a1: "count_list (trace s) (Added r) = 1" using ok(2) p by (simp add: trace_ok_def)
    from adv obtain tr where "trace s' = trace s @ tr" by (auto simp: advances_def)
    then have "count_list (trace s') (Added r) \<ge> 1" using a1 by simp
    moreover have "count_list (trace s') (Added r) \<le> 1" using ok'(2) by (simp add: trace_ok_def)
    ultimately have "count_list (trace s') (Added r) = 1" by arith
    then have d: "count_list (trace s') (Deleted r) = 1" using ok'(2) np by (simp add: trace_ok_def)
    have p1: "waiters ?s1 r = Pending" using p by simp
    show ?thesis
    proof (cases "waiters s' r")
      case Unregistered
      then show ?thesis using nu by simp
    next
      case Pending
      then show ?thesis using np by simp
    next
      case (Resumed out)
      then have c: "calls_for r (trace s') = [out]" using ok'(2) by (simp add: trace_ok_def)
      then have "out \<in> set (outcomes (trace s'))"
        using calls_subset_outcomes [of r "trace s'"] by auto
      then have o: "out = outcome_of res" using ok'(2) st by (auto simp: trace_ok_def)
      from exec_deleted_then_called [OF m1 e p1 Resumed]
      show ?thesis using d c o Resumed by simp
    next
      case Cancelled
      then have "calls_for r (trace s') = []" using ok'(2) by (simp add: trace_ok_def)
      then show ?thesis using d Cancelled by simp
    qed
  qed
  have safe: "waiters s' r = Resumed (outcome_of res)"
    if p: "waiters s r = Pending \<and> never_halted r ks s" for r
  proof -
    have nh: "never_halted r ks ?s1" using p by (simp add: never_halted_def)
    have "waiters s' r \<noteq> Cancelled"
      using exec_not_halted [OF m1 e _ nh] p by simp
    then show ?thesis using fate [of r] p by auto
  qed
  show ?thesis using e st em ok' adv fate safe by blast
qed

lemma exec_settle_unsettled:
  assumes "registry_ok s" "settlement s = None"
  shows "exec [Do (Call_resolve v)] ks s = exec [Loop] ks (s\<lparr>settlement := Some (Ok v), settle_live := False\<rparr>)"
    and "exec [Do (Call_reject e)] ks s = exec [Loop] ks (s\<lparr>settlement := Some (Err e), settle_live := False\<rparr>)"
  using assms by (simp_all add: exec.simps settle_enter_reg)

lemma machine_ok_program: "machine_ok (map Do prog) withResolvers"
proof -
  have "registry_ok withResolvers" by (simp add: registry_ok_def withResolvers_def)
  moreover have "settlement withResolvers = None" by (simp add: withResolvers_def)
  ultimately show ?thesis by (auto simp: machine_ok_def trace_ok_withResolvers)
qed

lemma reachable_program:
  assumes "exec (map Do prog) (\<lambda>r. []) withResolvers = Inr (ks, s)"
  shows "structure_ok s" "trace_ok s"
  using exec_advances(1,2) [OF machine_ok_program assms] .

lemmas exec_eval = exec.simps resumes_def settle_enter_def run_program_def never_halted_def

text \<open>
  The claim C2 as it was stated fails where a caller, resumed inside the settling call,
  halts another suspended invocation. Three invocations are in the set; the caller of the
  first halts the second as soon as it is resumed. \<^verbatim>\<open>resolve(42)\<close> deletes and notifies
  the first, whose caller halts the second; the loop then finds only the third. The
  second was in the set before the settling call and that call never notifies it.
\<close>

theorem registered_waiter_not_notified:
  "returned (run_program [Await [Halt 1], Await [], Await []]) \<and>
   final_subscribers (run_program [Await [Halt 1], Await [], Await []]) = [0, 1, 2] \<and>
   final_waiter (run_program [Await [Halt 1], Await [], Await []]) 1 = Pending \<and>
   final_trace (run_program [Await [Halt 1], Await [], Await []]) = [Added 0, Added 1, Added 2] \<and>
   returned (run_program [Await [Halt 1], Await [], Await [], Call_resolve (JNum 42)]) \<and>
   final_trace (run_program [Await [Halt 1], Await [], Await [], Call_resolve (JNum 42)]) =
     [Added 0, Added 1, Added 2, Deleted 0, Called 0 (Resolved (JNum 42)),
      Deleted 1, Deleted 2, Called 2 (Resolved (JNum 42))] \<and>
   final_waiter (run_program [Await [Halt 1], Await [], Await [], Call_resolve (JNum 42)]) 1
     = Cancelled \<and>
   calls_for 1
     (final_trace (run_program [Await [Halt 1], Await [], Await [], Call_resolve (JNum 42)])) = []"
  by (simp add: exec_eval eval_defs returned_def final_subscribers_def final_trace_def
                final_waiter_def)

text \<open>
  The claim C4 as it was stated fails in the same way. Of four suspended invocations the
  fourth is cancelled before the settlement; the second is still suspended when
  \<^verbatim>\<open>reject\<close> is called, is halted inside that call by the caller of the first, and is not
  notified.
\<close>

theorem pending_waiter_not_notified:
  "returned (run_program [Await [Halt 1], Await [], Await [], Await [], Halt 3]) \<and>
   final_subscribers (run_program [Await [Halt 1], Await [], Await [], Await [], Halt 3])
     = [0, 1, 2] \<and>
   final_waiter (run_program [Await [Halt 1], Await [], Await [], Await [], Halt 3]) 1
     = Pending \<and>
   final_waiter (run_program [Await [Halt 1], Await [], Await [], Await [], Halt 3]) 3
     = Cancelled \<and>
   returned (run_program [Await [Halt 1], Await [], Await [], Await [], Halt 3,
                          Call_reject (JErr (JStr ''no''))]) \<and>
   final_trace (run_program [Await [Halt 1], Await [], Await [], Await [], Halt 3,
                             Call_reject (JErr (JStr ''no''))]) =
     [Added 0, Added 1, Added 2, Added 3, Deleted 3,
      Deleted 0, Called 0 (Rejected (JErr (JStr ''no''))),
      Deleted 1, Deleted 2, Called 2 (Rejected (JErr (JStr ''no'')))] \<and>
   final_waiter (run_program [Await [Halt 1], Await [], Await [], Await [], Halt 3,
                              Call_reject (JErr (JStr ''no''))]) 1 = Cancelled \<and>
   calls_for 1
     (final_trace (run_program [Await [Halt 1], Await [], Await [], Await [], Halt 3,
                                Call_reject (JErr (JStr ''no''))])) = []"
  by (simp add: exec_eval eval_defs returned_def final_subscribers_def final_trace_def
                final_waiter_def)

text \<open>
  A caller that invokes the operation again as soon as it is resumed: the new invocation
  is notified inside the loop, before the second member of the set, and its call of
  \<^verbatim>\<open>resolve\<close> does nothing.
\<close>

lemma late_call_inside_loop:
  "run_program [Await [Await [Call_resolve (JNum 7)]], Await [], Call_resolve (JNum 42)] =
     Inr \<lparr>subscribers = [], settlement = Some (Ok (JNum 42)), settle_live = False, next_resolver = 3,
          waiters = (\<lambda>r. Unregistered)(0 := Resumed (Resolved (JNum 42)),
                                         1 := Resumed (Resolved (JNum 42)),
                                         2 := Resumed (Resolved (JNum 42))),
          trace = [Added 0, Added 1, Deleted 0, Called 0 (Resolved (JNum 42)),
                   Called 2 (Resolved (JNum 42)), Deleted 1, Called 1 (Resolved (JNum 42))]\<rparr>"
  by (simp add: exec_eval eval_defs fun_eq_iff)

text \<open>
  Claim C2, as amended. An invocation \<open>r\<close> that is in the set when a settling call of
  \<^verbatim>\<open>resolve\<close> or \<^verbatim>\<open>reject\<close> starts is suspended and has received nothing. The call
  returns normally and leaves the set empty; \<open>r\<close> has then been deleted from the set
  exactly once, and either it was cancelled inside the call and has received nothing, or
  it has completed with the outcome of the call, notified exactly once and right after
  its deletion. It is notified whenever no continuation of a member of the set halts it.
  So no invocation that found the settlement empty is left suspended by the settlement
  that follows; and such an invocation is in the set when it suspends, testing the
  settlement and registering being one step.
\<close>

theorem registered_waiter_fate:
  assumes "exec (map Do prog) (\<lambda>r. []) withResolvers = Inr (ks, s)"
    and "settlement s = None" and "r \<in> set (subscribers s)"
  shows "waiters s r = Pending \<and> calls_for r (trace s) = [] \<and>
         (\<exists>ks' s'. exec [Do (Call_resolve v)] ks s = Inr (ks', s') \<and>
               settlement s' = Some (Ok v) \<and> subscribers s' = [] \<and>
               count_list (trace s') (Deleted r) = 1 \<and>
               (if waiters s' r = Cancelled then calls_for r (trace s') = []
                else waiters s' r = Resumed (Resolved v) \<and>
                     calls_for r (trace s') = [Resolved v] \<and>
                     (\<exists>tr1 tr2. trace s' = tr1 @ [Deleted r, Called r (Resolved v)] @ tr2)) \<and>
               (never_halted r ks s \<longrightarrow> waiters s' r = Resumed (Resolved v))) \<and>
         (\<exists>ks' s'. exec [Do (Call_reject e)] ks s = Inr (ks', s') \<and>
               settlement s' = Some (Err e) \<and> subscribers s' = [] \<and>
               count_list (trace s') (Deleted r) = 1 \<and>
               (if waiters s' r = Cancelled then calls_for r (trace s') = []
                else waiters s' r = Resumed (Rejected e) \<and>
                     calls_for r (trace s') = [Rejected e] \<and>
                     (\<exists>tr1 tr2. trace s' = tr1 @ [Deleted r, Called r (Rejected e)] @ tr2)) \<and>
               (never_halted r ks s \<longrightarrow> waiters s' r = Resumed (Rejected e))) \<and>
         exec [Do (Await k)] ks s = Inr (ks(next_resolver s := k), operation s) \<and>
         waiters (operation s) (next_resolver s) = Pending \<and>
         next_resolver s \<in> set (subscribers (operation s))"
proof -
  have ok: "structure_ok s" "trace_ok s" using reachable_program [OF assms(1)] .
  have reg: "registry_ok s" using ok(1) by (simp add: structure_ok_registry)
  have p: "waiters s r = Pending" using reg assms(3) by (simp add: registry_ok_def)
  have c: "calls_for r (trace s) = []" using ok(2) p by (simp add: trace_ok_def)
  have a: "\<exists>ks' s'. exec [Do (Call_resolve v)] ks s = Inr (ks', s') \<and>
               settlement s' = Some (Ok v) \<and> subscribers s' = [] \<and>
               count_list (trace s') (Deleted r) = 1 \<and>
               (if waiters s' r = Cancelled then calls_for r (trace s') = []
                else waiters s' r = Resumed (Resolved v) \<and>
                     calls_for r (trace s') = [Resolved v] \<and>
                     (\<exists>tr1 tr2. trace s' = tr1 @ [Deleted r, Called r (Resolved v)] @ tr2)) \<and>
               (never_halted r ks s \<longrightarrow> waiters s' r = Resumed (Resolved v))"
    using settling_loop [OF ok assms(2), of ks "Ok v"] p
    unfolding exec_settle_unsettled(1) [OF reg assms(2)] outcome_of_Ok
    by blast
  have b: "\<exists>ks' s'. exec [Do (Call_reject e)] ks s = Inr (ks', s') \<and>
               settlement s' = Some (Err e) \<and> subscribers s' = [] \<and>
               count_list (trace s') (Deleted r) = 1 \<and>
               (if waiters s' r = Cancelled then calls_for r (trace s') = []
                else waiters s' r = Resumed (Rejected e) \<and>
                     calls_for r (trace s') = [Rejected e] \<and>
                     (\<exists>tr1 tr2. trace s' = tr1 @ [Deleted r, Called r (Rejected e)] @ tr2)) \<and>
               (never_halted r ks s \<longrightarrow> waiters s' r = Resumed (Rejected e))"
    using settling_loop [OF ok assms(2), of ks "Err e"] p
    unfolding exec_settle_unsettled(2) [OF reg assms(2)] outcome_of_Err
    by blast
  have o: "exec [Do (Await k)] ks s = Inr (ks(next_resolver s := k), operation s) \<and>
         waiters (operation s) (next_resolver s) = Pending \<and>
         next_resolver s \<in> set (subscribers (operation s))"
    using assms(2) by (simp add: exec.simps operation_unsettled_reg [OF reg assms(2)])
  show ?thesis using p c a b o by blast
qed

text \<open>
  Three invocations, the caller of the first halting the second when resumed; the third
  is halted by nobody and \<^verbatim>\<open>resolve(42)\<close> notifies it.
\<close>

theorem registered_waiter_fate_witness:
  "exec (map Do [Await [Halt 1], Await [], Await []]) (\<lambda>r. []) withResolvers =
     Inr ((\<lambda>r. [])(0 := [Halt 1], 1 := [], 2 := []),
          \<lparr>subscribers = [0, 1, 2], settlement = None, settle_live = True, next_resolver = 3,
           waiters = (\<lambda>r. Unregistered)(0 := Pending, 1 := Pending, 2 := Pending),
           trace = [Added 0, Added 1, Added 2]\<rparr>) \<and>
   never_halted 2 ((\<lambda>r. [])(0 := [Halt 1], 1 := [], 2 := []))
     \<lparr>subscribers = [0, 1, 2], settlement = None, settle_live = True, next_resolver = 3,
      waiters = (\<lambda>r. Unregistered)(0 := Pending, 1 := Pending, 2 := Pending),
      trace = [Added 0, Added 1, Added 2]\<rparr> \<and>
   exec [Do (Call_resolve (JNum 42))] ((\<lambda>r. [])(0 := [Halt 1], 1 := [], 2 := []))
     \<lparr>subscribers = [0, 1, 2], settlement = None, settle_live = True, next_resolver = 3,
      waiters = (\<lambda>r. Unregistered)(0 := Pending, 1 := Pending, 2 := Pending),
      trace = [Added 0, Added 1, Added 2]\<rparr> =
     Inr ((\<lambda>r. [])(0 := [Halt 1], 1 := [], 2 := []),
          \<lparr>subscribers = [], settlement = Some (Ok (JNum 42)), settle_live = False,
           next_resolver = 3,
           waiters = (\<lambda>r. Unregistered)(0 := Resumed (Resolved (JNum 42)), 1 := Cancelled,
                                          2 := Resumed (Resolved (JNum 42))),
           trace = [Added 0, Added 1, Added 2, Deleted 0, Called 0 (Resolved (JNum 42)),
                    Deleted 1, Deleted 2, Called 2 (Resolved (JNum 42))]\<rparr>)"
proof -
  let ?ks = "(\<lambda>r. [])(0 := [Halt 1], 1 := [], 2 := []) :: continuations"
  let ?s = "\<lparr>subscribers = [0, 1, 2], settlement = None, settle_live = True, next_resolver = 3,
           waiters = (\<lambda>r. Unregistered)(0 := Pending, 1 := Pending, 2 := Pending),
           trace = [Added 0, Added 1, Added 2]\<rparr>"
  have h1: "exec (map Do [Await [Halt 1], Await [], Await []]) (\<lambda>r. []) withResolvers = Inr (?ks, ?s)"
    by (simp add: exec_eval eval_defs fun_eq_iff)
  have h2: "settlement ?s = None" by simp
  have h3: "2 \<in> set (subscribers ?s)" by simp
  show ?thesis
    using h1 registered_waiter_fate [OF h1 h2 h3, of "JNum 42" "JErr (JStr ''no'')" "[]"]
    by (simp add: exec_eval eval_defs fun_eq_iff)
qed

text \<open>
  Claim C4, as amended. A suspended invocation \<open>r\<close> is in the set and has not been
  deleted from it; halting it deletes it, once. A later call of \<^verbatim>\<open>resolve\<close> or
  \<^verbatim>\<open>reject\<close> returns normally and leaves the set empty; it never calls a continuation of
  \<open>r\<close> and does not delete \<open>r\<close> again. Every invocation still in the set when that call
  starts is deleted exactly once and is either cancelled inside the call, receiving
  nothing, or notified once with the outcome; it is notified whenever no continuation of
  a member of the set halts it. On every way out of the suspension a resolver that
  entered the set has been deleted from it exactly once, and none is deleted twice.
\<close>

theorem cancelled_waiter_skipped:
  assumes "exec (map Do prog) (\<lambda>r. []) withResolvers = Inr (ks, s)"
    and "waiters s r = Pending"
  shows "r \<in> set (subscribers s) \<and> count_list (trace s) (Deleted r) = 0 \<and>
         exec [Do (Halt r)] ks s = Inr (ks, cancel r s) \<and>
         cancel r s =
           s\<lparr>subscribers := removeAll r (subscribers s),
             waiters := (waiters s)(r := Cancelled),
             trace := trace s @ [Deleted r]\<rparr> \<and>
         r \<notin> set (subscribers (cancel r s)) \<and>
         count_list (trace (cancel r s)) (Deleted r) = 1 \<and>
         (\<forall>r'. count_list (trace s) (Deleted r') \<le> 1) \<and>
         (\<forall>r'. Added r' \<in> set (trace s) \<and> waiters s r' \<noteq> Pending \<longrightarrow>
                count_list (trace s) (Deleted r') = 1) \<and>
         (\<exists>ks' s'. exec [Do (Call_resolve v)] ks (cancel r s) = Inr (ks', s') \<and>
               subscribers s' = [] \<and> waiters s' r = Cancelled \<and>
               calls_for r (trace s') = [] \<and> count_list (trace s') (Deleted r) = 1 \<and>
               (\<forall>r'. r' \<in> set (subscribers (cancel r s)) \<longrightarrow>
                      count_list (trace s') (Deleted r') = 1 \<and>
                      (if waiters s' r' = Cancelled then calls_for r' (trace s') = []
                       else waiters s' r' = Resumed (Resolved v) \<and>
                            calls_for r' (trace s') = [Resolved v])) \<and>
               (\<forall>r'. r' \<in> set (subscribers (cancel r s)) \<and> never_halted r' ks (cancel r s) \<longrightarrow>
                      waiters s' r' = Resumed (Resolved v))) \<and>
         (\<exists>ks' s'. exec [Do (Call_reject e)] ks (cancel r s) = Inr (ks', s') \<and>
               subscribers s' = [] \<and> waiters s' r = Cancelled \<and>
               calls_for r (trace s') = [] \<and> count_list (trace s') (Deleted r) = 1 \<and>
               (\<forall>r'. r' \<in> set (subscribers (cancel r s)) \<longrightarrow>
                      count_list (trace s') (Deleted r') = 1 \<and>
                      (if waiters s' r' = Cancelled then calls_for r' (trace s') = []
                       else waiters s' r' = Resumed (Rejected e) \<and>
                            calls_for r' (trace s') = [Rejected e])) \<and>
               (\<forall>r'. r' \<in> set (subscribers (cancel r s)) \<and> never_halted r' ks (cancel r s) \<longrightarrow>
                      waiters s' r' = Resumed (Rejected e)))"
proof -
  have ok: "structure_ok s" "trace_ok s" using reachable_program [OF assms(1)] .
  have reg: "registry_ok s" using ok(1) by (simp add: structure_ok_registry)
  let ?c = "cancel r s"
  have cp: "?c = s\<lparr>subscribers := removeAll r (subscribers s),
             waiters := (waiters s)(r := Cancelled),
             trace := trace s @ [Deleted r]\<rparr>"
    using cancel_pending_reg [OF reg assms(2)] .
  have okc: "structure_ok ?c" "trace_ok ?c"
    using ok by (simp_all add: structure_ok_cancel trace_ok_cancel)
  have regc: "registry_ok ?c" using okc(1) by (simp add: structure_ok_registry)
  have m: "r \<in> set (subscribers s)" using reg assms(2) by (simp add: registry_ok_def)
  have d0: "count_list (trace s) (Deleted r) = 0" using ok(2) assms(2) by (simp add: trace_ok_def)
  have un: "settlement s = None" using ok(1) m by (auto simp: structure_ok_def)
  have unc: "settlement ?c = None" using un by (simp add: settlement_cancel)
  have wc: "waiters ?c r = Cancelled" "r \<notin> set (subscribers ?c)"
    "count_list (trace ?c) (Deleted r) = 1"
    using d0 by (simp_all add: cp)
  have le: "\<forall>r'. count_list (trace s) (Deleted r') \<le> 1"
    using ok(2) by (auto simp: trace_ok_def)
  have ex: "\<forall>r'. Added r' \<in> set (trace s) \<and> waiters s r' \<noteq> Pending \<longrightarrow>
                count_list (trace s) (Deleted r') = 1"
  proof (intro allI impI)
    fix r' assume h: "Added r' \<in> set (trace s) \<and> waiters s r' \<noteq> Pending"
    then have "count_list (trace s) (Added r') \<noteq> 0" by (simp add: count_list_0_iff)
    moreover have "count_list (trace s) (Added r') \<le> 1" using ok(2) by (simp add: trace_ok_def)
    ultimately have "count_list (trace s) (Added r') = 1" by arith
    then show "count_list (trace s) (Deleted r') = 1" using ok(2) h by (simp add: trace_ok_def)
  qed
  have gen: "\<exists>ks' s'. exec [Loop] ks (?c\<lparr>settlement := Some res, settle_live := False\<rparr>) = Inr (ks', s') \<and>
               subscribers s' = [] \<and> waiters s' r = Cancelled \<and>
               calls_for r (trace s') = [] \<and> count_list (trace s') (Deleted r) = 1 \<and>
               (\<forall>r'. r' \<in> set (subscribers ?c) \<longrightarrow>
                      count_list (trace s') (Deleted r') = 1 \<and>
                      (if waiters s' r' = Cancelled then calls_for r' (trace s') = []
                       else waiters s' r' = Resumed (outcome_of res) \<and>
                            calls_for r' (trace s') = [outcome_of res])) \<and>
               (\<forall>r'. r' \<in> set (subscribers ?c) \<and> never_halted r' ks ?c \<longrightarrow>
                      waiters s' r' = Resumed (outcome_of res))"
    for res
  proof -
    from settling_loop [OF okc unc, of ks res] obtain ks' s' where
      e: "exec [Loop] ks (?c\<lparr>settlement := Some res, settle_live := False\<rparr>) = Inr (ks', s')"
      and em: "subscribers s' = []" and ok': "trace_ok s'" and adv: "advances ?c s'"
      and fate: "\<forall>r. waiters ?c r = Pending \<longrightarrow>
                 count_list (trace s') (Deleted r) = 1 \<and>
                 (if waiters s' r = Cancelled then calls_for r (trace s') = []
                  else waiters s' r = Resumed (outcome_of res) \<and>
                       calls_for r (trace s') = [outcome_of res] \<and>
                       (\<exists>tr1 tr2. trace s' = tr1 @ [Deleted r, Called r (outcome_of res)] @ tr2))"
      and safe: "\<forall>r. waiters ?c r = Pending \<and> never_halted r ks ?c \<longrightarrow>
                 waiters s' r = Resumed (outcome_of res)"
      by blast
    have c': "waiters s' r = Cancelled" using adv wc(1) by (simp add: advances_def)
    have calls: "calls_for r (trace s') = []" using ok' c' by (simp add: trace_ok_def)
    have dels: "count_list (trace s') (Deleted r) = 1" using ok' c' by (simp add: trace_ok_def)
    have pend: "\<And>r'. r' \<in> set (subscribers ?c) \<Longrightarrow> waiters ?c r' = Pending"
      using regc by (simp add: registry_ok_def)
    show ?thesis
      using e em c' calls dels fate safe pend by (intro exI conjI allI impI) auto
  qed
  have halt: "exec [Do (Halt r)] ks s = Inr (ks, cancel r s)" by (simp add: exec.simps)
  have a: "\<exists>ks' s'. exec [Do (Call_resolve v)] ks ?c = Inr (ks', s') \<and>
               subscribers s' = [] \<and> waiters s' r = Cancelled \<and>
               calls_for r (trace s') = [] \<and> count_list (trace s') (Deleted r) = 1 \<and>
               (\<forall>r'. r' \<in> set (subscribers ?c) \<longrightarrow>
                      count_list (trace s') (Deleted r') = 1 \<and>
                      (if waiters s' r' = Cancelled then calls_for r' (trace s') = []
                       else waiters s' r' = Resumed (Resolved v) \<and>
                            calls_for r' (trace s') = [Resolved v])) \<and>
               (\<forall>r'. r' \<in> set (subscribers ?c) \<and> never_halted r' ks ?c \<longrightarrow>
                      waiters s' r' = Resumed (Resolved v))"
    using gen [of "Ok v"]
    unfolding exec_settle_unsettled(1) [OF regc unc] outcome_of_Ok .
  have b: "\<exists>ks' s'. exec [Do (Call_reject e)] ks ?c = Inr (ks', s') \<and>
               subscribers s' = [] \<and> waiters s' r = Cancelled \<and>
               calls_for r (trace s') = [] \<and> count_list (trace s') (Deleted r) = 1 \<and>
               (\<forall>r'. r' \<in> set (subscribers ?c) \<longrightarrow>
                      count_list (trace s') (Deleted r') = 1 \<and>
                      (if waiters s' r' = Cancelled then calls_for r' (trace s') = []
                       else waiters s' r' = Resumed (Rejected e) \<and>
                            calls_for r' (trace s') = [Rejected e])) \<and>
               (\<forall>r'. r' \<in> set (subscribers ?c) \<and> never_halted r' ks ?c \<longrightarrow>
                      waiters s' r' = Resumed (Rejected e))"
    using gen [of "Err e"]
    unfolding exec_settle_unsettled(2) [OF regc unc] outcome_of_Err .
  show ?thesis
    using m d0 halt cp wc(2,3) le ex a b by (intro conjI)
qed

text \<open>
  Four suspended invocations; the fourth is halted, then \<^verbatim>\<open>reject(new Error("no"))\<close> is
  called, inside which the caller of the first halts the second.
\<close>

theorem cancelled_waiter_skipped_witness:
  "exec (map Do [Await [Halt 1], Await [], Await [], Await []]) (\<lambda>r. []) withResolvers =
     Inr ((\<lambda>r. [])(0 := [Halt 1], 1 := [], 2 := [], 3 := []),
          \<lparr>subscribers = [0, 1, 2, 3], settlement = None, settle_live = True, next_resolver = 4,
           waiters = (\<lambda>r. Unregistered)(0 := Pending, 1 := Pending, 2 := Pending, 3 := Pending),
           trace = [Added 0, Added 1, Added 2, Added 3]\<rparr>) \<and>
   exec [Do (Halt 3), Do (Call_reject (JErr (JStr ''no'')))]
        ((\<lambda>r. [])(0 := [Halt 1], 1 := [], 2 := [], 3 := []))
        \<lparr>subscribers = [0, 1, 2, 3], settlement = None, settle_live = True, next_resolver = 4,
         waiters = (\<lambda>r. Unregistered)(0 := Pending, 1 := Pending, 2 := Pending, 3 := Pending),
         trace = [Added 0, Added 1, Added 2, Added 3]\<rparr> =
     Inr ((\<lambda>r. [])(0 := [Halt 1], 1 := [], 2 := [], 3 := []),
          \<lparr>subscribers = [], settlement = Some (Err (JErr (JStr ''no''))), settle_live = False,
           next_resolver = 4,
           waiters = (\<lambda>r. Unregistered)(0 := Resumed (Rejected (JErr (JStr ''no''))), 1 := Cancelled,
                                          2 := Resumed (Rejected (JErr (JStr ''no''))), 3 := Cancelled),
           trace = [Added 0, Added 1, Added 2, Added 3, Deleted 3,
                    Deleted 0, Called 0 (Rejected (JErr (JStr ''no''))),
                    Deleted 1, Deleted 2, Called 2 (Rejected (JErr (JStr ''no'')))]\<rparr>)"
proof -
  let ?ks = "(\<lambda>r. [])(0 := [Halt 1], 1 := [], 2 := [], 3 := []) :: continuations"
  let ?s = "\<lparr>subscribers = [0, 1, 2, 3], settlement = None, settle_live = True, next_resolver = 4,
           waiters = (\<lambda>r. Unregistered)(0 := Pending, 1 := Pending, 2 := Pending, 3 := Pending),
           trace = [Added 0, Added 1, Added 2, Added 3]\<rparr>"
  have h1: "exec (map Do [Await [Halt 1], Await [], Await [], Await []]) (\<lambda>r. []) withResolvers
              = Inr (?ks, ?s)"
    by (simp add: exec_eval eval_defs fun_eq_iff)
  have h2: "waiters ?s 3 = Pending" by simp
  show ?thesis
    using h1 cancelled_waiter_skipped [OF h1 h2, of "JNum 1" "JErr (JStr ''no'')"]
    by (simp add: exec_eval eval_defs fun_eq_iff)
qed

text \<open>
  A run in which no caller does anything inside a continuation call is an execution of
  the same actions with empty continuations.
\<close>

lemma exec_loop_idle:
  "exec [Loop] (\<lambda>r. []) s =
     (case settle_loop s of Inl x \<Rightarrow> Inl x | Inr s' \<Rightarrow> Inr (\<lambda>r. [], s'))"
proof (induction s rule: settle_loop.induct)
  case (1 s)
  show ?case
  proof (cases "subscribers s")
    case Nil
    then show ?thesis by (simp add: exec.simps settle_loop.simps [of s])
  next
    case (Cons w rest)
    show ?thesis
    proof (cases "settlement s")
      case None
      then show ?thesis using Cons by (simp add: exec.simps settle_loop.simps [of s])
    next
      case (Some res)
      then show ?thesis
        using Cons "1.IH" [OF Cons Some]
        by (simp add: exec.simps settle_loop.simps [of s])
    qed
  qed
qed

lemma exec_settle_idle:
  "(case settle_enter res s of None \<Rightarrow> exec [] (\<lambda>r. []) s | Some s1 \<Rightarrow> exec [Loop] (\<lambda>r. []) s1)
     = (case settle res s of Inl x \<Rightarrow> Inl x | Inr s' \<Rightarrow> Inr (\<lambda>r. [], s'))"
  by (simp add: settle_enter_def settle_def exec.simps(1) exec_loop_idle)

lemma exec_step_idle:
  "exec [Do (plain e)] (\<lambda>r. []) s =
     (case step s e of Inl x \<Rightarrow> Inl x | Inr s' \<Rightarrow> Inr (\<lambda>r. [], s'))"
proof (cases e)
  case Invoke
  have "(\<lambda>r. [])(next_resolver s := []) = (\<lambda>r. [] :: act list)" by (simp add: fun_eq_iff)
  then show ?thesis using Invoke by (simp add: exec.simps split: option.splits)
next
  case (Cancel r)
  then show ?thesis by (simp add: exec.simps)
next
  case (Resolve v)
  then show ?thesis using exec_settle_idle [where res = "Ok v" and s = s]
    by (simp add: exec.simps resolve_def)
next
  case (Reject x)
  then show ?thesis using exec_settle_idle [where res = "Err x" and s = s]
    by (simp add: exec.simps reject_def)
qed

lemma exec_run_idle:
  "exec (map (Do \<circ> plain) es) (\<lambda>r. []) s =
     (case run s es of Inl x \<Rightarrow> Inl x | Inr s' \<Rightarrow> Inr (\<lambda>r. [], s'))"
proof (induction es arbitrary: s)
  case Nil
  show ?case by (simp add: exec.simps)
next
  case (Cons e es)
  have "exec (map (Do \<circ> plain) (e # es)) (\<lambda>r. []) s
          = (case exec [Do (plain e)] (\<lambda>r. []) s of Inl x \<Rightarrow> Inl x
             | Inr (ks1, s1) \<Rightarrow> exec (map (Do \<circ> plain) es) ks1 s1)"
    using exec_append [of "[Do (plain e)]" "map (Do \<circ> plain) es" "\<lambda>r. []" s] by simp
  also have "\<dots> = (case step s e of Inl x \<Rightarrow> Inl x
                     | Inr s1 \<Rightarrow> exec (map (Do \<circ> plain) es) (\<lambda>r. []) s1)"
    by (simp add: exec_step_idle split: sum.splits)
  also have "\<dots> = (case run s (e # es) of Inl x \<Rightarrow> Inl x | Inr s' \<Rightarrow> Inr (\<lambda>r. [], s'))"
    by (simp add: Cons.IH split: sum.splits)
  finally show ?case .
qed

lemma run_program_plain: "run_program (map plain es) = run withResolvers es"
  by (simp add: run_program_def exec_run_idle split: sum.splits)

end
